theory Spec2Isabelle
  imports Complex_Main
begin

section \<open>The canvas panner and stitcher (antirizz.js)\<close>

subsection \<open>Configuration constants\<close>

definition VIEWPORT_width :: int where "VIEWPORT_width = 1280"
definition VIEWPORT_height :: int where "VIEWPORT_height = 800"
definition STEP_FRACTION :: rat where "STEP_FRACTION = 3 / 4"
definition DELAY_MS :: nat where "DELAY_MS = 700"
definition MAX_IDENTICAL_TO_EDGE :: nat where "MAX_IDENTICAL_TO_EDGE = 3"
definition DRAG_PAUSE :: nat where "DRAG_PAUSE = 200"
definition RETRY_ATTEMPTS :: nat where "RETRY_ATTEMPTS = 3"

text \<open>
  \<^verbatim>\<open>Math.round\<close> rounds to the nearest integer, a tie going up. The constant
  \<^verbatim>\<open>0.75\<close> and both products \<^verbatim>\<open>1280 * 0.75\<close>, \<^verbatim>\<open>800 * 0.75\<close> are exact
  in binary floating point, so rationals compute what the doubles do here.
\<close>

definition Math_round :: "rat \<Rightarrow> int" where
  "Math_round x = \<lfloor>x + 1 / 2\<rfloor>"

text \<open>Template literals print an index in decimal.\<close>

definition digit :: "nat \<Rightarrow> char" where
  "digit d = ''0123456789'' ! d"

function dec :: "nat \<Rightarrow> string" where
  "dec n = (if n < 10 then [digit n] else dec (n div 10) @ [digit (n mod 10)])"
  by pat_completeness auto
termination
  by (relation "measure id") auto

declare dec.simps [simp del]

subsection \<open>The page, as the script sees it\<close>

text \<open>
  The script never observes the map's position: it only asks the page for the canvas
  contents and drags the mouse. The page is therefore two oracles, fixed for a run:
  \<open>render k\<close> is what the \<open>k\<close>-th evaluation of \<^verbatim>\<open>canvas.toDataURL\<close> decodes to
  (\<open>None\<close> when it yields null, no canvas, or an invalid data URL), and \<open>panOk k\<close> says
  whether the \<open>k\<close>-th drag gesture goes through (it fails when the canvas is gone).
  The rest of the record is what the script changes: how many evaluations it has made,
  the drag vectors it has issued, the milliseconds it has waited, and the capture
  directory (file name to contents).
\<close>

type_synonym buffer = "nat list"

datatype error = CaptureFailed | PanFailed | HorizCap | VertCap | LoadFailed

record world =
  render :: "nat \<Rightarrow> buffer option"
  panOk :: "nat \<Rightarrow> bool"
  clock :: nat
  pans :: "(int \<times> int) list"
  waited :: nat
  files :: "string \<Rightarrow> buffer option"

definition waitForTimeout :: "nat \<Rightarrow> world \<Rightarrow> world" where
  "waitForTimeout ms w = w\<lparr>waited := waited w + ms\<rparr>"

definition writeFile :: "string \<Rightarrow> buffer \<Rightarrow> world \<Rightarrow> world" where
  "writeFile name buf w = w\<lparr>files := (files w)(name \<mapsto> buf)\<rparr>"

text \<open>
  \<^verbatim>\<open>captureCanvasBuffer(retries)\<close>: attempts \<open>1 .. retries\<close>; a usable image returns at
  once, a failed attempt is logged and followed by a 300 ms wait; after the loop it throws.
\<close>

function captureLoop :: "nat \<Rightarrow> nat \<Rightarrow> world \<Rightarrow> (error + buffer) \<times> world" where
  "captureLoop retries attempt w =
     (if attempt \<le> retries then
        (case render w (clock w) of
           Some buf \<Rightarrow> (Inr buf, w\<lparr>clock := clock w + 1\<rparr>)
         | None \<Rightarrow>
             captureLoop retries (attempt + 1)
               (waitForTimeout 300 (w\<lparr>clock := clock w + 1\<rparr>)))
      else (Inl CaptureFailed, w))"
  by pat_completeness auto
termination
  by (relation "measure (\<lambda>(retries, attempt, w). Suc retries - attempt)") auto

declare captureLoop.simps [simp del]

definition captureCanvasBuffer :: "nat \<Rightarrow> world \<Rightarrow> (error + buffer) \<times> world" where
  "captureCanvasBuffer retries w = captureLoop retries 1 w"

text \<open>
  \<^verbatim>\<open>dragPan(deltaX, deltaY)\<close>: one drag gesture from the canvas centre by the given
  vector (the eight intermediate mouse moves end at \<open>start + delta\<close>, the deltas being
  integers), with its pause and the eight 10 ms waits. The gesture is recorded as the
  requested vector.
\<close>

definition dragPan :: "int \<Rightarrow> int \<Rightarrow> world \<Rightarrow> (error + unit) \<times> world" where
  "dragPan deltaX deltaY w =
     (if panOk w (length (pans w))
      then (Inr (), waitForTimeout (DRAG_PAUSE + 8 * 10) (w\<lparr>pans := pans w @ [(deltaX, deltaY)]\<rparr>))
      else (Inl PanFailed, w))"

subsection \<open>Edge scans\<close>

record 'h meta =
  steps :: nat
  lastHash :: "'h"

text \<open>
  \<^verbatim>\<open>findEdgeHoriz\<close> and \<^verbatim>\<open>findEdgeVert\<close> have the same loop body; they differ in the
  drag vector, the file name prefix and the error thrown at the cap. \<open>scanLoop\<close> is that
  loop from iteration \<open>i\<close> on, with the loop variables \<open>identicalCount\<close> and
  \<open>lastHash\<close>. The hash function is a parameter.
\<close>

function scanLoop ::
  "(buffer \<Rightarrow> 'h) \<Rightarrow> int \<times> int \<Rightarrow> string \<Rightarrow> error \<Rightarrow> nat \<Rightarrow> nat \<Rightarrow> 'h \<Rightarrow> world
     \<Rightarrow> (error + 'h meta) \<times> world" where
  "scanLoop md5 step prefix capErr i identicalCount lastH w =
     (if i < 2000 then
        (case dragPan (fst step) (snd step) w of
           (Inl e, w1) \<Rightarrow> (Inl e, w1)
         | (Inr u, w1) \<Rightarrow>
             (case captureCanvasBuffer RETRY_ATTEMPTS (waitForTimeout DELAY_MS w1) of
                (Inl e, w2) \<Rightarrow> (Inl e, w2)
              | (Inr buf, w2) \<Rightarrow>
                  (let h = md5 buf;
                       identicalCount' = (if h = lastH then identicalCount + 1 else 0);
                       lastH' = (if h = lastH then lastH else h);
                       w3 = writeFile (prefix @ ''_'' @ dec i @ ''.png'') buf w2
                   in if identicalCount' \<ge> MAX_IDENTICAL_TO_EDGE
                      then (Inr \<lparr>steps = i + 1, lastHash = lastH'\<rparr>, w3)
                      else scanLoop md5 step prefix capErr (i + 1) identicalCount' lastH' w3)))
      else (Inl capErr, w))"
  by pat_completeness auto
termination
  by (relation "measure (\<lambda>(md5, step, prefix, capErr, i, c, l, w). 2000 - i)") auto

declare scanLoop.simps [simp del]

definition findEdgeHoriz ::
  "(buffer \<Rightarrow> 'h) \<Rightarrow> 'h \<Rightarrow> string \<Rightarrow> world \<Rightarrow> (error + 'h meta) \<times> world" where
  "findEdgeHoriz md5 initialHash direction w =
     (let stepX = Math_round (of_int VIEWPORT_width * STEP_FRACTION)
                    * (if direction = ''right'' then - 1 else 1)
      in scanLoop md5 (stepX, 0) (''h_'' @ direction) HorizCap 0 0 initialHash w)"

definition findEdgeVert ::
  "(buffer \<Rightarrow> 'h) \<Rightarrow> 'h \<Rightarrow> string \<Rightarrow> world \<Rightarrow> (error + 'h meta) \<times> world" where
  "findEdgeVert md5 initialHash direction w =
     (let stepY = Math_round (of_int VIEWPORT_height * STEP_FRACTION)
                    * (if direction = ''down'' then - 1 else 1)
      in scanLoop md5 (0, stepY) (''v_'' @ direction) VertCap 0 0 initialHash w)"

text \<open>The two try/catch blocks: any exception of the first scan starts the opposite one.\<close>

definition horizMeta :: "(buffer \<Rightarrow> 'h) \<Rightarrow> 'h \<Rightarrow> world \<Rightarrow> (error + 'h meta) \<times> world" where
  "horizMeta md5 initialHash w =
     (case findEdgeHoriz md5 initialHash ''right'' w of
        (Inr m, w1) \<Rightarrow> (Inr m, w1)
      | (Inl e, w1) \<Rightarrow> findEdgeHoriz md5 initialHash ''left'' w1)"

definition vertMeta :: "(buffer \<Rightarrow> 'h) \<Rightarrow> 'h \<Rightarrow> world \<Rightarrow> (error + 'h meta) \<times> world" where
  "vertMeta md5 initialHash w =
     (case findEdgeVert md5 initialHash ''down'' w of
        (Inr m, w1) \<Rightarrow> (Inr m, w1)
      | (Inl e, w1) \<Rightarrow> findEdgeVert md5 initialHash ''up'' w1)"

subsection \<open>Re-homing and the alignment pans\<close>

text \<open>
  The loop \<^verbatim>\<open>for (i = 0; i < n; i++) { await dragPan(dx, dy); await page.waitForTimeout(ms); }\<close>,
  which the script writes out seven times.
\<close>

fun panTimes :: "nat \<Rightarrow> int \<Rightarrow> int \<Rightarrow> nat \<Rightarrow> world \<Rightarrow> (error + unit) \<times> world" where
  "panTimes 0 dx dy ms w = (Inr (), w)"
| "panTimes (Suc n) dx dy ms w =
     (case dragPan dx dy w of
        (Inl e, w1) \<Rightarrow> (Inl e, w1)
      | (Inr u, w1) \<Rightarrow> panTimes n dx dy ms (waitForTimeout ms w1))"

text \<open>
  \<^verbatim>\<open>revV\<close> and \<^verbatim>\<open>revH\<close>: the factor
  \<^verbatim>\<open>(vertMeta ? (vertMeta.lastHash ? 1 : 1) : 1)\<close> is 1 on each of its branches.
\<close>

definition revV :: int where
  "revV = - Math_round (of_int VIEWPORT_height * STEP_FRACTION) * 1"

definition revH :: int where
  "revH = - Math_round (of_int VIEWPORT_width * STEP_FRACTION) * 1"

definition rehome :: "'h meta \<Rightarrow> 'h meta \<Rightarrow> world \<Rightarrow> (error + unit) \<times> world" where
  "rehome vm hm w =
     (case panTimes (steps vm) (- 0) (- revV) 100 w of
        (Inl e, w1) \<Rightarrow> (Inl e, w1)
      | (Inr u, w1) \<Rightarrow> panTimes (steps hm) (- revH) 0 100 w1)"

definition cols :: "'h meta \<Rightarrow> nat" where
  "cols hm = steps hm + 1"

definition rows :: "'h meta \<Rightarrow> nat" where
  "rows vm = steps vm + 1"

definition stepX :: int where
  "stepX = Math_round (of_int VIEWPORT_width * STEP_FRACTION)"

definition stepY :: int where
  "stepY = Math_round (of_int VIEWPORT_height * STEP_FRACTION)"

text \<open>The four loops under "Ensure we are at top-left by doing a few extra reversals".\<close>

definition align :: "world \<Rightarrow> (error + unit) \<times> world" where
  "align w =
     (case panTimes 3 stepX 0 50 w of
        (Inl e, w1) \<Rightarrow> (Inl e, w1)
      | (Inr u, w1) \<Rightarrow>
     (case panTimes 3 0 stepY 50 w1 of
        (Inl e, w2) \<Rightarrow> (Inl e, w2)
      | (Inr u, w2) \<Rightarrow>
     (case panTimes 3 (- stepX) 0 50 w2 of
        (Inl e, w3) \<Rightarrow> (Inl e, w3)
      | (Inr u, w3) \<Rightarrow> panTimes 3 0 (- stepY) 50 w3)))"

text \<open>The net drag vector of a list of pans.\<close>

definition net :: "(int \<times> int) list \<Rightarrow> int \<times> int" where
  "net ps = (sum_list (map fst ps), sum_list (map snd ps))"

subsection \<open>The raster sweep\<close>

definition tileName :: "nat \<Rightarrow> nat \<Rightarrow> string" where
  "tileName r c = ''tile_r'' @ dec r @ ''_c'' @ dec c @ ''.png''"

text \<open>
  The inner loop of the sweep from column \<open>c\<close> on, with the row's \<^verbatim>\<open>rowFiles\<close> so far.
  \<open>ncols\<close> is the script's \<^verbatim>\<open>cols\<close>; it is at least 1 there, and \<open>c < ncols - 1\<close> is
  compared over the integers as the script does.
\<close>

function colLoop ::
  "nat \<Rightarrow> nat \<Rightarrow> nat \<Rightarrow> string list \<Rightarrow> world \<Rightarrow> (error + string list) \<times> world" where
  "colLoop ncols r c rowFiles w =
     (if c < ncols then
        (case captureCanvasBuffer RETRY_ATTEMPTS (waitForTimeout DELAY_MS w) of
           (Inl e, w1) \<Rightarrow> (Inl e, w1)
         | (Inr buf, w1) \<Rightarrow>
             (let filename = tileName r c;
                  w2 = writeFile filename buf w1;
                  rowFiles' = rowFiles @ [filename]
              in if int c < int ncols - 1
                 then (case dragPan (- stepX) 0 w2 of
                         (Inl e, w3) \<Rightarrow> (Inl e, w3)
                       | (Inr u, w3) \<Rightarrow>
                           colLoop ncols r (c + 1) rowFiles' (waitForTimeout DELAY_MS w3))
                 else colLoop ncols r (c + 1) rowFiles' w2))
      else (Inr rowFiles, w))"
  by pat_completeness auto
termination
  by (relation "measure (\<lambda>(ncols, r, c, rowFiles, w). ncols - c)") auto

declare colLoop.simps [simp del]

text \<open>The outer loop from row \<open>r\<close> on, with \<^verbatim>\<open>saved\<close> so far.\<close>

function rowLoop ::
  "nat \<Rightarrow> nat \<Rightarrow> nat \<Rightarrow> string list list \<Rightarrow> world \<Rightarrow> (error + string list list) \<times> world" where
  "rowLoop nrows ncols r saved w =
     (if r < nrows then
        (case colLoop ncols r 0 [] w of
           (Inl e, w1) \<Rightarrow> (Inl e, w1)
         | (Inr rowFiles, w1) \<Rightarrow>
             (case panTimes (nat (int ncols - 1)) stepX 0 50 w1 of
                (Inl e, w2) \<Rightarrow> (Inl e, w2)
              | (Inr u, w2) \<Rightarrow>
                  (if int r < int nrows - 1
                   then (case dragPan 0 (- stepY) w2 of
                           (Inl e, w3) \<Rightarrow> (Inl e, w3)
                         | (Inr u, w3) \<Rightarrow>
                             rowLoop nrows ncols (r + 1) (saved @ [rowFiles])
                               (waitForTimeout DELAY_MS w3))
                   else rowLoop nrows ncols (r + 1) (saved @ [rowFiles]) w2)))
      else (Inr saved, w))"
  by pat_completeness auto
termination
  by (relation "measure (\<lambda>(nrows, ncols, r, saved, w). nrows - r)") auto

declare rowLoop.simps [simp del]

definition sweep :: "nat \<Rightarrow> nat \<Rightarrow> world \<Rightarrow> (error + string list list) \<times> world" where
  "sweep nrows ncols w = rowLoop nrows ncols 0 [] w"

subsection \<open>Stitching\<close>

text \<open>
  The node-canvas surface: its size and the \<^verbatim>\<open>drawImage(img, dx, dy, w, h)\<close> calls made on
  it, in order. \<open>loadImage\<close> decodes a file's bytes and may reject them.
\<close>

record 'img canvas =
  cwidth :: int
  cheight :: int
  drawn :: "('img \<times> int \<times> int \<times> int \<times> int) list"

definition createCanvas :: "int \<Rightarrow> int \<Rightarrow> 'img canvas" where
  "createCanvas wd ht = \<lparr>cwidth = wd, cheight = ht, drawn = []\<rparr>"

definition drawImage :: "'img \<Rightarrow> int \<Rightarrow> int \<Rightarrow> int \<Rightarrow> int \<Rightarrow> 'img canvas \<Rightarrow> 'img canvas" where
  "drawImage img dx dy wd ht cv = cv\<lparr>drawn := drawn cv @ [(img, dx, dy, wd, ht)]\<rparr>"

definition tileW :: int where "tileW = VIEWPORT_width"
definition tileH :: int where "tileH = VIEWPORT_height"
definition effectiveStepX :: int where
  "effectiveStepX = Math_round (of_int VIEWPORT_width * STEP_FRACTION)"
definition effectiveStepY :: int where
  "effectiveStepY = Math_round (of_int VIEWPORT_height * STEP_FRACTION)"

function stitchCols ::
  "(buffer \<Rightarrow> 'img option) \<Rightarrow> (string \<Rightarrow> buffer option) \<Rightarrow> string list \<Rightarrow> nat \<Rightarrow> nat
     \<Rightarrow> 'img canvas \<Rightarrow> error + 'img canvas" where
  "stitchCols loadImage fs savedRow r c cv =
     (if c < length savedRow then
        (let imgPath = savedRow ! c in
         case fs imgPath of
           None \<Rightarrow> stitchCols loadImage fs savedRow r (c + 1) cv
         | Some bytes \<Rightarrow>
             (case loadImage bytes of
                None \<Rightarrow> Inl LoadFailed
              | Some img \<Rightarrow>
                  (let dx = int c * effectiveStepX;
                       dy = int r * effectiveStepY
                   in stitchCols loadImage fs savedRow r (c + 1)
                        (drawImage img dx dy tileW tileH cv))))
      else Inr cv)"
  by pat_completeness auto
termination
  by (relation "measure (\<lambda>(loadImage, fs, savedRow, r, c, cv). length savedRow - c)") auto

declare stitchCols.simps [simp del]

function stitchRows ::
  "(buffer \<Rightarrow> 'img option) \<Rightarrow> (string \<Rightarrow> buffer option) \<Rightarrow> string list list \<Rightarrow> nat
     \<Rightarrow> 'img canvas \<Rightarrow> error + 'img canvas" where
  "stitchRows loadImage fs saved r cv =
     (if r < length saved then
        (case stitchCols loadImage fs (saved ! r) r 0 cv of
           Inl e \<Rightarrow> Inl e
         | Inr cv' \<Rightarrow> stitchRows loadImage fs saved (r + 1) cv')
      else Inr cv)"
  by pat_completeness auto
termination
  by (relation "measure (\<lambda>(loadImage, fs, saved, r, cv). length saved - r)") auto

declare stitchRows.simps [simp del]

definition stitch ::
  "(buffer \<Rightarrow> 'img option) \<Rightarrow> (string \<Rightarrow> buffer option) \<Rightarrow> nat \<Rightarrow> nat \<Rightarrow> string list list
     \<Rightarrow> error + 'img canvas" where
  "stitch loadImage fs ncols nrows saved =
     (let stitchedWidth = (int ncols - 1) * effectiveStepX + tileW;
          stitchedHeight = (int nrows - 1) * effectiveStepY + tileH
      in stitchRows loadImage fs saved 0 (createCanvas stitchedWidth stitchedHeight))"

text \<open>
  What one grid slot contributes to the composite: nothing when its file is missing or
  does not decode, else one tile-sized draw at the slot's offset.
\<close>

definition tileDraw ::
  "(buffer \<Rightarrow> 'img option) \<Rightarrow> (string \<Rightarrow> buffer option) \<Rightarrow> string \<Rightarrow> nat \<Rightarrow> nat
     \<Rightarrow> ('img \<times> int \<times> int \<times> int \<times> int) list" where
  "tileDraw loadImage fs imgPath r c =
     (case fs imgPath of
        None \<Rightarrow> []
      | Some bytes \<Rightarrow>
          (case loadImage bytes of
             None \<Rightarrow> []
           | Some img \<Rightarrow> [(img, int c * effectiveStepX, int r * effectiveStepY, tileW, tileH)]))"

subsection \<open>The script's body\<close>

text \<open>Both edge scans and the two reversal loops.\<close>

definition locate ::
  "(buffer \<Rightarrow> 'h) \<Rightarrow> 'h \<Rightarrow> world \<Rightarrow> (error + 'h meta \<times> 'h meta) \<times> world" where
  "locate md5 initialHash w =
     (case horizMeta md5 initialHash w of
        (Inl e, w1) \<Rightarrow> (Inl e, w1)
      | (Inr hm, w1) \<Rightarrow>
     (case vertMeta md5 initialHash w1 of
        (Inl e, w2) \<Rightarrow> (Inl e, w2)
      | (Inr vm, w2) \<Rightarrow>
     (case rehome vm hm w2 of
        (Inl e, w3) \<Rightarrow> (Inl e, w3)
      | (Inr u, w3) \<Rightarrow> (Inr (hm, vm), w3))))"

definition main ::
  "(buffer \<Rightarrow> 'h) \<Rightarrow> (buffer \<Rightarrow> 'img option) \<Rightarrow> world \<Rightarrow> (error + 'img canvas) \<times> world" where
  "main md5 loadImage w =
     (case captureCanvasBuffer RETRY_ATTEMPTS w of
        (Inl e, w0) \<Rightarrow> (Inl e, w0)
      | (Inr initialBuf, w0) \<Rightarrow>
     (case locate md5 (md5 initialBuf) w0 of
        (Inl e, w1) \<Rightarrow> (Inl e, w1)
      | (Inr (hm, vm), w1) \<Rightarrow>
     (case align w1 of
        (Inl e, w2) \<Rightarrow> (Inl e, w2)
      | (Inr u, w2) \<Rightarrow>
     (case sweep (rows vm) (cols hm) w2 of
        (Inl e, w3) \<Rightarrow> (Inl e, w3)
      | (Inr saved, w3) \<Rightarrow>
          (stitch loadImage (files w3) (cols hm) (rows vm) saved, w3)))))"

section \<open>Days of upkeep left (scraper.js)\<close>

text \<open>
  \<^verbatim>\<open>computeDays\<close> receives what \<^verbatim>\<open>parseNumRaw\<close> produced, or \<^verbatim>\<open>null\<close>: a JavaScript
  number, null or undefined. A number is NaN, an infinity or a finite value (the sign of
  zero plays no role here). The quotient of two finite doubles is the exact quotient
  rounded to a double; that rounding is the parameter \<open>fl\<close>.
\<close>

datatype jsnum = NaN | PosInf | NegInf | Fin rat

datatype jsval = JNull | JUndefined | JNum jsnum

fun Number :: "jsval \<Rightarrow> jsnum" where
  "Number JNull = Fin 0"
| "Number JUndefined = NaN"
| "Number (JNum n) = n"

fun isFinite :: "jsnum \<Rightarrow> bool" where
  "isFinite (Fin x) = True"
| "isFinite n = False"

text \<open>Division by a finite divisor; by zero it gives an infinity or NaN, as in IEEE 754.\<close>

fun jsdiv :: "(rat \<Rightarrow> jsnum) \<Rightarrow> jsnum \<Rightarrow> rat \<Rightarrow> jsnum" where
  "jsdiv fl NaN b = NaN"
| "jsdiv fl PosInf b = (if 0 \<le> b then PosInf else NegInf)"
| "jsdiv fl NegInf b = (if 0 \<le> b then NegInf else PosInf)"
| "jsdiv fl (Fin a) b =
     (if b = 0 then (if a = 0 then NaN else if 0 < a then PosInf else NegInf)
      else fl (a / b))"

fun gt1 :: "jsnum \<Rightarrow> bool" where
  "gt1 (Fin x) = (1 < x)"
| "gt1 PosInf = True"
| "gt1 n = False"

fun Math_ceil :: "jsnum \<Rightarrow> jsnum" where
  "Math_ceil (Fin x) = Fin (of_int \<lceil>x\<rceil>)"
| "Math_ceil n = n"

fun Math_round_num :: "jsnum \<Rightarrow> jsnum" where
  "Math_round_num (Fin x) = Fin (of_int (Math_round x))"
| "Math_round_num n = n"

definition computeDays :: "(rat \<Rightarrow> jsnum) \<Rightarrow> jsval \<Rightarrow> jsval \<Rightarrow> jsval" where
  "computeDays fl bank upkeep =
     (if bank = JNull \<or> bank = JUndefined \<or> upkeep = JNull \<or> upkeep = JUndefined then JNull
      else
        (let up = Number upkeep in
         if \<not> isFinite up \<or> up = Fin 0 then JNull
         else
           (let days = (case up of Fin b \<Rightarrow> jsdiv fl (Number bank) b | _ \<Rightarrow> NaN) in
            if gt1 days then JNum (Math_ceil days) else JNum (Math_round_num days))))"

section \<open>Example pages\<close>

text \<open>A page that always shows the same frame and never refuses a drag.\<close>

definition plainPage :: world where
  "plainPage = \<lparr>render = (\<lambda>k. Some [0]), panOk = (\<lambda>k. True), clock = 0, pans = [],
     waited = 0, files = (\<lambda>name. None)\<rparr>"

text \<open>A page whose first \<^verbatim>\<open>toDataURL\<close> yields null and whose later ones succeed.\<close>

definition flakyPage :: world where
  "flakyPage = \<lparr>render = (\<lambda>k. if k = 0 then None else Some [7]), panOk = (\<lambda>k. True),
     clock = 0, pans = [], waited = 0, files = (\<lambda>name. None)\<rparr>"

text \<open>A page that shows two distinct frames, the second one from then on.\<close>

definition twoFrames :: "buffer list" where
  "twoFrames = [[1], [2]]"

definition twoFramePage :: world where
  "twoFramePage = \<lparr>render = (\<lambda>k. Some (if k < 2 then twoFrames ! k else last twoFrames)),
     panOk = (\<lambda>k. True), clock = 0, pans = [], waited = 0, files = (\<lambda>name. None)\<rparr>"

text \<open>
  A page whose frame changes at each of the first 2000 captures and then shows two new
  frames, the second one from then on.
\<close>

definition fallbackPage :: world where
  "fallbackPage = \<lparr>render = (\<lambda>k. Some (if k < 2000 then [k mod 2] else if k = 2000 then [5] else [6])),
     panOk = (\<lambda>k. True), clock = 0, pans = [], waited = 0, files = (\<lambda>name. None)\<rparr>"

text \<open>
  A page that stands still except during captures 3 to 2002, where the frame changes
  every time.
\<close>

definition driftPage :: world where
  "driftPage = \<lparr>render = (\<lambda>k. Some (if 3 \<le> k \<and> k < 2003 then [1 + k mod 2] else [0])),
     panOk = (\<lambda>k. True), clock = 0, pans = [], waited = 0, files = (\<lambda>name. None)\<rparr>"

text \<open>A capture directory that holds the tile of slot (0, 0) only.\<close>

definition oneTileDir :: "string \<Rightarrow> buffer option" where
  "oneTileDir = (\<lambda>name. if name = tileName 0 0 then Some [1] else None)"

definition oneRowSaved :: "string list list" where
  "oneRowSaved = [[tileName 0 0, tileName 0 1]]"

text \<open>The file lists of a swept grid of two rows and three columns.\<close>

definition gridSaved :: "string list list" where
  "gridSaved = [[tileName 0 0, tileName 0 1, tileName 0 2],
                [tileName 1 0, tileName 1 1, tileName 1 2]]"

section \<open>Basic facts\<close>

lemma step_values [simp]:
  "stepX = 960" "stepY = 600" "effectiveStepX = 960" "effectiveStepY = 600"
  "revH = - 960" "revV = - 600" "tileW = 1280" "tileH = 800"
  by (simp_all add: stepX_def stepY_def effectiveStepX_def effectiveStepY_def revH_def revV_def
      tileW_def tileH_def Math_round_def VIEWPORT_width_def VIEWPORT_height_def STEP_FRACTION_def
      floor_eq_iff)

lemma dragPan_ok:
  "panOk w (length (pans w)) \<Longrightarrow>
   dragPan dx dy w = (Inr (), w\<lparr>pans := pans w @ [(dx, dy)], waited := waited w + 280\<rparr>)"
  by (simp add: dragPan_def waitForTimeout_def DRAG_PAUSE_def)

lemma panTimes_ok:
  "\<forall>k. panOk w k \<Longrightarrow>
   panTimes n dx dy ms w =
     (Inr (), w\<lparr>pans := pans w @ replicate n (dx, dy), waited := waited w + n * (280 + ms)\<rparr>)"
proof (induction n arbitrary: w)
  case 0
  then show ?case by simp
next
  case (Suc n)
  have ok: "panOk w (length (pans w))" using Suc.prems by simp
  let ?w1 = "waitForTimeout ms (w\<lparr>pans := pans w @ [(dx, dy)], waited := waited w + 280\<rparr>)"
  have "\<forall>k. panOk ?w1 k" using Suc.prems by (simp add: waitForTimeout_def)
  from Suc.IH [OF this] show ?case
    by (simp add: dragPan_ok [OF ok] waitForTimeout_def replicate_app_Cons_same)
qed

lemma net_append: "net (ps @ qs) = (fst (net ps) + fst (net qs), snd (net ps) + snd (net qs))"
  by (simp add: net_def)

lemma net_replicate: "net (replicate n (dx, dy)) = (int n * dx, int n * dy)"
  by (simp add: net_def sum_list_replicate)

section \<open>Grid dimensions\<close>

text \<open>
  Claim C4. The grid has one more column than the horizontal scan reported steps and one
  more row than the vertical scan did; four horizontal and two vertical steps give five
  columns and three rows.
\<close>

theorem grid_dimensions:
  "cols hm = steps hm + 1 \<and> rows vm = steps vm + 1 \<and>
   cols \<lparr>steps = 4, lastHash = h\<rparr> = 5 \<and> rows \<lparr>steps = 2, lastHash = h'\<rparr> = 3"
  by (simp add: cols_def rows_def)

section \<open>The alignment pans\<close>

text \<open>
  Claim C10. On a page that accepts every drag, the alignment sequence before the sweep
  issues three pans by \<open>+stepX\<close>, three by \<open>+stepY\<close>, three by \<open>-stepX\<close> and three by
  \<open>-stepY\<close>, and nothing else; their vectors add up to zero on both axes.
\<close>

theorem align_neutral:
  assumes "\<forall>k. panOk w k"
  shows "fst (align w) = Inr () \<and>
         pans (snd (align w)) =
           pans w @ replicate 3 (stepX, 0) @ replicate 3 (0, stepY)
                  @ replicate 3 (- stepX, 0) @ replicate 3 (0, - stepY) \<and>
         net (replicate 3 (stepX, 0) @ replicate 3 (0, stepY)
                  @ replicate 3 (- stepX, 0) @ replicate 3 (0, - stepY)) = (0, 0)"
  using assms by (simp add: align_def panTimes_ok net_append net_replicate)

theorem align_neutral_witness:
  "fst (align plainPage) = Inr () \<and>
   pans (snd (align plainPage)) =
     [(960, 0), (960, 0), (960, 0), (0, 600), (0, 600), (0, 600),
      (- 960, 0), (- 960, 0), (- 960, 0), (0, - 600), (0, - 600), (0, - 600)]"
proof -
  have ok: "\<forall>k. panOk plainPage k" by (simp add: plainPage_def)
  have empty: "pans plainPage = []" by (simp add: plainPage_def)
  from align_neutral [OF ok] empty show ?thesis
    by (simp add: numeral_3_eq_3)
qed

section \<open>Frame capture\<close>

lemma captureLoop_frame:
  "captureLoop retries a w = (res, w') \<Longrightarrow>
   render w' = render w \<and> panOk w' = panOk w \<and> pans w' = pans w \<and> files w' = files w"
proof (induction retries a w rule: captureLoop.induct)
  case (1 retries attempt w)
  show ?case
  proof (cases "attempt \<le> retries")
    case False
    with "1.prems" show ?thesis by (simp add: captureLoop.simps)
  next
    case True
    show ?thesis
    proof (cases "render w (clock w)")
      case (Some buf)
      with True "1.prems" show ?thesis by (auto simp: captureLoop.simps)
    next
      case None
      let ?w1 = "waitForTimeout 300 (w\<lparr>clock := clock w + 1\<rparr>)"
      from True None "1.prems" have "captureLoop retries (attempt + 1) ?w1 = (res, w')"
        by (simp add: captureLoop.simps)
      from "1.IH" [OF True None this] show ?thesis by (simp add: waitForTimeout_def)
    qed
  qed
qed

lemma captureLoop_spec:
  "captureLoop retries a w = (res, w') \<Longrightarrow>
   (case res of
      Inr buf \<Rightarrow>
        (\<exists>j. a + j \<le> retries \<and> render w (clock w + j) = Some buf \<and>
             (\<forall>i<j. render w (clock w + i) = None) \<and>
             clock w' = clock w + j + 1 \<and> waited w' = waited w + 300 * j)
    | Inl e \<Rightarrow>
        e = CaptureFailed \<and> (\<forall>j. a + j \<le> retries \<longrightarrow> render w (clock w + j) = None) \<and>
        clock w' = clock w + (Suc retries - a) \<and>
        waited w' = waited w + 300 * (Suc retries - a))"
proof (induction retries a w rule: captureLoop.induct)
  case (1 retries attempt w)
  show ?case
  proof (cases "attempt \<le> retries")
    case False
    with "1.prems" show ?thesis by (auto simp: captureLoop.simps)
  next
    case True
    show ?thesis
    proof (cases "render w (clock w)")
      case (Some buf)
      with True "1.prems" have "res = Inr buf" "w' = w\<lparr>clock := clock w + 1\<rparr>"
        by (auto simp: captureLoop.simps)
      with Some True show ?thesis by (auto intro!: exI [of _ 0])
    next
      case None
      let ?w1 = "waitForTimeout 300 (w\<lparr>clock := clock w + 1\<rparr>)"
      from True None "1.prems" have run: "captureLoop retries (attempt + 1) ?w1 = (res, w')"
        by (simp add: captureLoop.simps)
      note IH = "1.IH" [OF True None run]
      have r1: "render ?w1 = render w" and c1: "clock ?w1 = clock w + 1"
        and t1: "waited ?w1 = waited w + 300"
        by (simp_all add: waitForTimeout_def)
      show ?thesis
      proof (cases res)
        case (Inr buf)
        with IH r1 c1 t1 obtain j where j: "attempt + 1 + j \<le> retries"
          "render w (clock w + 1 + j) = Some buf"
          "\<forall>i<j. render w (clock w + 1 + i) = None"
          "clock w' = clock w + 1 + j + 1" "waited w' = waited w + 300 + 300 * j"
          by auto
        have "\<forall>i<Suc j. render w (clock w + i) = None"
        proof (intro allI impI)
          fix i assume "i < Suc j"
          show "render w (clock w + i) = None"
          proof (cases i)
            case 0 with None show ?thesis by simp
          next
            case (Suc i')
            with \<open>i < Suc j\<close> j(3) show ?thesis by simp
          qed
        qed
        with j Inr show ?thesis by (auto intro!: exI [of _ "Suc j"])
      next
        case (Inl e)
        with IH r1 c1 t1 have e: "e = CaptureFailed"
          and none: "\<forall>j. attempt + 1 + j \<le> retries \<longrightarrow> render w (clock w + 1 + j) = None"
          and cl: "clock w' = clock w + 1 + (Suc retries - (attempt + 1))"
          and wt: "waited w' = waited w + 300 + 300 * (Suc retries - (attempt + 1))"
          by auto
        have "\<forall>j. attempt + j \<le> retries \<longrightarrow> render w (clock w + j) = None"
        proof (intro allI impI)
          fix j assume "attempt + j \<le> retries"
          show "render w (clock w + j) = None"
          proof (cases j)
            case 0 with None show ?thesis by simp
          next
            case (Suc j')
            with \<open>attempt + j \<le> retries\<close> none show ?thesis by simp
          qed
        qed
        with e cl wt True Inl show ?thesis by auto
      qed
    qed
  qed
qed

lemma capture_first_ok:
  "render w (clock w) = Some buf \<Longrightarrow>
   captureCanvasBuffer RETRY_ATTEMPTS w = (Inr buf, w\<lparr>clock := clock w + 1\<rparr>)"
  by (simp add: captureCanvasBuffer_def captureLoop.simps RETRY_ATTEMPTS_def)

text \<open>
  Claim C6. A capture makes at most \<open>retries\<close> attempts (three by default). When it
  returns an image, that image is the first usable one among the attempts, every earlier
  attempt having failed and been followed by a 300 ms wait. When it fails, the failure is
  \<open>CaptureFailed\<close>, all \<open>retries\<close> attempts yielded nothing, and each was followed by the
  wait.
\<close>

theorem capture_retry_bound:
  "clock (snd (captureCanvasBuffer retries w)) \<le> clock w + retries \<and>
   (\<forall>buf. fst (captureCanvasBuffer retries w) = Inr buf \<longrightarrow>
      (\<exists>j<retries. render w (clock w + j) = Some buf \<and>
         (\<forall>i<j. render w (clock w + i) = None) \<and>
         clock (snd (captureCanvasBuffer retries w)) = clock w + j + 1 \<and>
         waited (snd (captureCanvasBuffer retries w)) = waited w + 300 * j)) \<and>
   (\<forall>e. fst (captureCanvasBuffer retries w) = Inl e \<longrightarrow>
      e = CaptureFailed \<and> (\<forall>j<retries. render w (clock w + j) = None) \<and>
      clock (snd (captureCanvasBuffer retries w)) = clock w + retries \<and>
      waited (snd (captureCanvasBuffer retries w)) = waited w + 300 * retries) \<and>
   RETRY_ATTEMPTS = 3"
proof -
  obtain res w' where run: "captureLoop retries 1 w = (res, w')"
    by (cases "captureLoop retries 1 w")
  note spec = captureLoop_spec [OF run]
  show ?thesis
  proof (cases res)
    case (Inr buf)
    with spec obtain j where "1 + j \<le> retries" "render w (clock w + j) = Some buf"
      "\<forall>i<j. render w (clock w + i) = None" "clock w' = clock w + j + 1"
      "waited w' = waited w + 300 * j"
      by auto
    with run Inr show ?thesis
      by (auto simp: captureCanvasBuffer_def RETRY_ATTEMPTS_def intro!: exI [of _ j])
  next
    case (Inl e)
    with spec have "e = CaptureFailed" "\<forall>j. 1 + j \<le> retries \<longrightarrow> render w (clock w + j) = None"
      "clock w' = clock w + (Suc retries - 1)" "waited w' = waited w + 300 * (Suc retries - 1)"
      by auto
    with run Inl show ?thesis
      by (auto simp: captureCanvasBuffer_def RETRY_ATTEMPTS_def)
  qed
qed

theorem capture_retry_bound_witness:
  "fst (captureCanvasBuffer 3 flakyPage) = Inr [7] \<and>
   clock (snd (captureCanvasBuffer 3 flakyPage)) \<le> 3 \<and>
   (\<exists>j<3. render flakyPage j = Some [7] \<and> (\<forall>i<j. render flakyPage i = None) \<and>
      clock (snd (captureCanvasBuffer 3 flakyPage)) = j + 1 \<and>
      waited (snd (captureCanvasBuffer 3 flakyPage)) = 300 * j)"
proof -
  have run: "fst (captureCanvasBuffer 3 flakyPage) = Inr [7]"
    by (simp add: captureCanvasBuffer_def captureLoop.simps flakyPage_def waitForTimeout_def)
  have start: "clock flakyPage = 0" "waited flakyPage = 0" by (simp_all add: flakyPage_def)
  from capture_retry_bound [of 3 flakyPage] run start show ?thesis
    by (simp add: RETRY_ATTEMPTS_def)
qed

section \<open>Edge scans\<close>

lemma scan_step:
  assumes "i < 2000" "panOk w (length (pans w))" "render w (clock w) = Some buf"
  shows "scanLoop md5 step p e i c l w =
     (let w3 = w\<lparr>pans := pans w @ [step], waited := waited w + 980, clock := clock w + 1,
                  files := (files w)(p @ ''_'' @ dec i @ ''.png'' \<mapsto> buf)\<rparr>
      in if md5 buf = l
         then (if 3 \<le> c + 1 then (Inr \<lparr>steps = i + 1, lastHash = l\<rparr>, w3)
               else scanLoop md5 step p e (i + 1) (c + 1) l w3)
         else scanLoop md5 step p e (i + 1) 0 (md5 buf) w3)"
proof -
  let ?w1 = "w\<lparr>pans := pans w @ [(fst step, snd step)], waited := waited w + 280\<rparr>"
  have cap: "captureCanvasBuffer RETRY_ATTEMPTS (waitForTimeout DELAY_MS ?w1) =
      (Inr buf, (waitForTimeout DELAY_MS ?w1)\<lparr>clock := clock w + 1\<rparr>)"
    using capture_first_ok [of "waitForTimeout DELAY_MS ?w1" buf] assms(3)
    by (simp add: waitForTimeout_def)
  show ?thesis
    apply (subst scanLoop.simps)
    apply (simp only: assms(1) if_True dragPan_ok [OF assms(2)] prod.case sum.case cap)
    apply (simp add: Let_def MAX_IDENTICAL_TO_EDGE_def waitForTimeout_def writeFile_def DELAY_MS_def
        add.commute [of 980])
    done
qed

lemma scan_distinct_run:
  assumes "\<forall>k. panOk w k"
    and "\<forall>j<m. render w (clock w + j) = Some (g j)"
    and "0 < m" and "md5 (g 0) \<noteq> l"
    and "\<forall>j. Suc j < m \<longrightarrow> md5 (g (Suc j)) \<noteq> md5 (g j)"
    and "i + m \<le> 2000"
  shows "\<exists>w'. scanLoop md5 step p e i c l w = scanLoop md5 step p e (i + m) 0 (md5 (g (m - 1))) w'
           \<and> render w' = render w \<and> panOk w' = panOk w \<and> clock w' = clock w + m
           \<and> pans w' = pans w @ replicate m step"
  using assms
proof (induction m arbitrary: w g i c l)
  case 0
  then show ?case by simp
next
  case (Suc m)
  have ok: "panOk w (length (pans w))" using Suc.prems(1) by simp
  have r0: "render w (clock w) = Some (g 0)" using Suc.prems(2) [rule_format, of 0] by simp
  have i: "i < 2000" using Suc.prems(6) by simp
  let ?w3 = "w\<lparr>pans := pans w @ [step], waited := waited w + 980, clock := clock w + 1,
                  files := (files w)(p @ ''_'' @ dec i @ ''.png'' \<mapsto> g 0)\<rparr>"
  have one: "scanLoop md5 step p e i c l w = scanLoop md5 step p e (i + 1) 0 (md5 (g 0)) ?w3"
    using Suc.prems(4) by (simp add: scan_step [OF i ok r0] Let_def)
  show ?case
  proof (cases m)
    case 0
    with one show ?thesis by (intro exI [of _ ?w3]) simp
  next
    case (Suc m')
    have "\<exists>w'. scanLoop md5 step p e (i + 1) 0 (md5 (g 0)) ?w3 =
             scanLoop md5 step p e (i + 1 + m) 0 (md5 ((g \<circ> Suc) (m - 1))) w'
           \<and> render w' = render ?w3 \<and> panOk w' = panOk ?w3 \<and> clock w' = clock ?w3 + m
           \<and> pans w' = pans ?w3 @ replicate m step"
    proof (rule Suc.IH)
      show "\<forall>k. panOk ?w3 k" using Suc.prems(1) by simp
      show "\<forall>j<m. render ?w3 (clock ?w3 + j) = Some ((g \<circ> Suc) j)"
        using Suc.prems(2) by (auto dest: spec [where x = "Suc j" for j])
      show "0 < m" using Suc by simp
      show "md5 ((g \<circ> Suc) 0) \<noteq> md5 (g 0)" using Suc.prems(5) Suc by simp
      show "\<forall>j. Suc j < m \<longrightarrow> md5 ((g \<circ> Suc) (Suc j)) \<noteq> md5 ((g \<circ> Suc) j)"
        using Suc.prems(5) by simp
      show "i + 1 + m \<le> 2000" using Suc.prems(6) by simp
    qed
    then obtain w' where w': "scanLoop md5 step p e (i + 1) 0 (md5 (g 0)) ?w3 =
             scanLoop md5 step p e (i + 1 + m) 0 (md5 ((g \<circ> Suc) (m - 1))) w'"
      "render w' = render ?w3" "panOk w' = panOk ?w3" "clock w' = clock ?w3 + m"
      "pans w' = pans ?w3 @ replicate m step"
      by blast
    show ?thesis
      apply (intro exI [of _ w'])
      using one w' Suc
      apply (simp add: replicate_app_Cons_same)
      done
  qed
qed

lemma scan_identical_run:
  assumes "\<forall>k. panOk w k"
    and "\<forall>j<m. render w (clock w + j) = Some (g j) \<and> md5 (g j) = l"
    and "0 < m" and "c + m = 3" and "i + m \<le> 2000"
  shows "\<exists>w'. scanLoop md5 step p e i c l w = (Inr \<lparr>steps = i + m, lastHash = l\<rparr>, w')
           \<and> render w' = render w \<and> panOk w' = panOk w \<and> clock w' = clock w + m
           \<and> pans w' = pans w @ replicate m step"
  using assms
proof (induction m arbitrary: w g i c)
  case 0
  then show ?case by simp
next
  case (Suc m)
  have ok: "panOk w (length (pans w))" using Suc.prems(1) by simp
  have r0: "render w (clock w) = Some (g 0)" "md5 (g 0) = l"
    using Suc.prems(2) [rule_format, of 0] by simp_all
  have i: "i < 2000" using Suc.prems(5) by simp
  let ?w3 = "w\<lparr>pans := pans w @ [step], waited := waited w + 980, clock := clock w + 1,
                  files := (files w)(p @ ''_'' @ dec i @ ''.png'' \<mapsto> g 0)\<rparr>"
  show ?case
  proof (cases m)
    case 0
    with Suc.prems(4) have "3 \<le> c + 1" by simp
    with r0 0 show ?thesis
      by (intro exI [of _ ?w3]) (simp add: scan_step [OF i ok r0(1)] Let_def)
  next
    case (Suc m')
    with Suc.prems(4) have small: "\<not> 3 \<le> c + 1" by simp
    have one: "scanLoop md5 step p e i c l w = scanLoop md5 step p e (i + 1) (c + 1) l ?w3"
      using r0 small by (simp add: scan_step [OF i ok r0(1)] Let_def)
    have "\<exists>w'. scanLoop md5 step p e (i + 1) (c + 1) l ?w3 =
             (Inr \<lparr>steps = i + 1 + m, lastHash = l\<rparr>, w')
           \<and> render w' = render ?w3 \<and> panOk w' = panOk ?w3 \<and> clock w' = clock ?w3 + m
           \<and> pans w' = pans ?w3 @ replicate m step"
    proof (rule Suc.IH)
      show "\<forall>k. panOk ?w3 k" using Suc.prems(1) by simp
      show "\<forall>j<m. render ?w3 (clock ?w3 + j) = Some ((g \<circ> Suc) j) \<and> md5 ((g \<circ> Suc) j) = l"
        using Suc.prems(2) by (auto dest: spec [where x = "Suc j" for j])
      show "0 < m" using Suc by simp
      show "c + 1 + m = 3" using Suc.prems(4) by simp
      show "i + 1 + m \<le> 2000" using Suc.prems(5) by simp
    qed
    then obtain w' where w': "scanLoop md5 step p e (i + 1) (c + 1) l ?w3 =
             (Inr \<lparr>steps = i + 1 + m, lastHash = l\<rparr>, w')"
      "render w' = render ?w3" "panOk w' = panOk ?w3" "clock w' = clock ?w3 + m"
      "pans w' = pans ?w3 @ replicate m step"
      by blast
    show ?thesis
      apply (intro exI [of _ w'])
      using one w'
      apply (simp add: replicate_app_Cons_same)
      done
  qed
qed

lemma scan_cap_run:
  assumes "\<forall>k. panOk w k"
    and "\<forall>j<2000. render w (clock w + j) = Some (g j)"
    and "md5 (g 0) \<noteq> l"
    and "\<forall>j. Suc j < 2000 \<longrightarrow> md5 (g (Suc j)) \<noteq> md5 (g j)"
  shows "\<exists>w'. scanLoop md5 step p e 0 c l w = (Inl e, w')
           \<and> render w' = render w \<and> panOk w' = panOk w \<and> clock w' = clock w + 2000
           \<and> pans w' = pans w @ replicate 2000 step"
proof -
  from scan_distinct_run [of w 2000 g md5 l 0 step p e c] assms
  obtain w' where w': "scanLoop md5 step p e 0 c l w =
        scanLoop md5 step p e 2000 0 (md5 (g (2000 - 1))) w'"
      "render w' = render w" "panOk w' = panOk w" "clock w' = clock w + 2000"
      "pans w' = pans w @ replicate 2000 step"
    by auto
  have "scanLoop md5 step p e 2000 0 (md5 (g (2000 - 1))) w' = (Inl e, w')"
    by (subst scanLoop.simps) simp
  with w' show ?thesis by auto
qed

lemma scan_edge_after_frames:
  assumes ok: "\<forall>k. panOk w k"
    and frames: "\<forall>j. render w (clock w + j) = Some (if j < length fs then fs ! j else last fs)"
    and nonempty: "fs \<noteq> []"
    and dist: "distinct (map md5 fs)"
    and first: "2 \<le> length fs \<or> md5 (fs ! 0) \<noteq> initialHash"
    and cap: "length fs + 3 \<le> 2000"
  shows "\<exists>w'. scanLoop md5 step p e 0 0 initialHash w =
             (Inr \<lparr>steps = length fs + 3, lastHash = md5 (last fs)\<rparr>, w')
           \<and> render w' = render w \<and> panOk w' = panOk w \<and> clock w' = clock w + (length fs + 3)
           \<and> pans w' = pans w @ replicate (length fs + 3) step"
proof -
  define N where "N = length fs"
  have N: "0 < N" using nonempty by (simp add: N_def)
  have adj: "\<forall>j. Suc j < N \<longrightarrow> md5 (fs ! Suc j) \<noteq> md5 (fs ! j)"
  proof (intro allI impI)
    fix j assume "Suc j < N"
    then have "(map md5 fs ! Suc j = map md5 fs ! j) = (Suc j = j)"
      using dist by (intro nth_eq_iff_index_eq) (simp_all add: N_def)
    with \<open>Suc j < N\<close> show "md5 (fs ! Suc j) \<noteq> md5 (fs ! j)" by (simp add: N_def)
  qed
  have lastfs: "last fs = fs ! (N - 1)" using nonempty by (simp add: last_conv_nth N_def)
  \<comment> \<open>the frames up to the last distinct one\<close>
  have "\<exists>w1. scanLoop md5 step p e 0 0 initialHash w = scanLoop md5 step p e N 0 (md5 (last fs)) w1
           \<and> render w1 = render w \<and> panOk w1 = panOk w \<and> clock w1 = clock w + N
           \<and> pans w1 = pans w @ replicate N step"
  proof (cases "md5 (fs ! 0) = initialHash")
    case False
    from scan_distinct_run [of w N "\<lambda>j. fs ! j" md5 initialHash 0 step p e 0]
    show ?thesis using ok frames N False adj cap lastfs by (auto simp: N_def)
  next
    case True
    with first have N2: "2 \<le> N" by (simp add: N_def)
    have ok0: "panOk w (length (pans w))" using ok by simp
    have r0: "render w (clock w) = Some (fs ! 0)"
      using frames [rule_format, of 0] N by (simp add: N_def)
    let ?w3 = "w\<lparr>pans := pans w @ [step], waited := waited w + 980, clock := clock w + 1,
                  files := (files w)(p @ ''_'' @ dec 0 @ ''.png'' \<mapsto> fs ! 0)\<rparr>"
    have one: "scanLoop md5 step p e 0 0 initialHash w = scanLoop md5 step p e (0 + 1) (0 + 1) initialHash ?w3"
      using True by (simp add: scan_step [OF _ ok0 r0] Let_def)
    have "\<exists>w1. scanLoop md5 step p e 1 1 initialHash ?w3 =
               scanLoop md5 step p e (1 + (N - 1)) 0 (md5 (fs ! Suc (N - 1 - 1))) w1
           \<and> render w1 = render ?w3 \<and> panOk w1 = panOk ?w3 \<and> clock w1 = clock ?w3 + (N - 1)
           \<and> pans w1 = pans ?w3 @ replicate (N - 1) step"
    proof (rule scan_distinct_run [where g = "\<lambda>j. fs ! Suc j"])
      show "\<forall>k. panOk ?w3 k" using ok by simp
      show "\<forall>j<N - 1. render ?w3 (clock ?w3 + j) = Some (fs ! Suc j)"
      proof (intro allI impI)
        fix j assume "j < N - 1"
        then have "Suc j < length fs" unfolding N_def by arith
        with frames [rule_format, of "Suc j"] show "render ?w3 (clock ?w3 + j) = Some (fs ! Suc j)"
          by simp
      qed
      show "0 < N - 1" using N2 by simp
      show "md5 (fs ! Suc 0) \<noteq> initialHash" using adj N2 True by auto
      show "\<forall>j. Suc j < N - 1 \<longrightarrow> md5 (fs ! Suc (Suc j)) \<noteq> md5 (fs ! Suc j)"
        using adj by auto
      show "1 + (N - 1) \<le> 2000" using cap N by (simp add: N_def)
    qed
    then obtain w1 where w1: "scanLoop md5 step p e 1 1 initialHash ?w3 =
               scanLoop md5 step p e (1 + (N - 1)) 0 (md5 (fs ! Suc (N - 1 - 1))) w1"
      "render w1 = render ?w3" "panOk w1 = panOk ?w3" "clock w1 = clock ?w3 + (N - 1)"
      "pans w1 = pans ?w3 @ replicate (N - 1) step"
      by blast
    have idx: "Suc (N - 1 - 1) = N - 1" "1 + (N - 1) = N" using N2 by simp_all
    have rep: "[step] @ replicate (N - 1) step = replicate N step"
      using N by (cases N) simp_all
    show ?thesis
      apply (intro exI [of _ w1])
      using one w1 idx lastfs rep N
      apply simp
      done
  qed
  then obtain w1 where w1: "scanLoop md5 step p e 0 0 initialHash w =
        scanLoop md5 step p e N 0 (md5 (last fs)) w1"
      "render w1 = render w" "panOk w1 = panOk w" "clock w1 = clock w + N"
      "pans w1 = pans w @ replicate N step"
    by blast
  \<comment> \<open>three more captures of the last frame\<close>
  have "\<exists>w'. scanLoop md5 step p e N 0 (md5 (last fs)) w1 =
             (Inr \<lparr>steps = N + 3, lastHash = md5 (last fs)\<rparr>, w')
           \<and> render w' = render w1 \<and> panOk w' = panOk w1 \<and> clock w' = clock w1 + 3
           \<and> pans w' = pans w1 @ replicate 3 step"
  proof (rule scan_identical_run [where g = "\<lambda>j. last fs"])
    show "\<forall>k. panOk w1 k" using ok w1 by simp
    show "\<forall>j<3. render w1 (clock w1 + j) = Some (last fs) \<and> md5 (last fs) = md5 (last fs)"
      using frames [rule_format, of "N + j" for j] w1 by (simp add: N_def add.assoc)
    show "N + 3 \<le> 2000" using cap by (simp add: N_def)
  qed simp_all
  then obtain w' where w': "scanLoop md5 step p e N 0 (md5 (last fs)) w1 =
             (Inr \<lparr>steps = N + 3, lastHash = md5 (last fs)\<rparr>, w')"
      "render w' = render w1" "panOk w' = panOk w1" "clock w' = clock w1 + 3"
      "pans w' = pans w1 @ replicate 3 step"
    by blast
  show ?thesis
    apply (intro exI [of _ w'])
    using w1 w'
    apply (simp add: N_def replicate_add [symmetric] del: replicate_add)
    done
qed

text \<open>
  Claim C1, as amended. On a page that accepts every drag and shows the \<open>N\<close> frames
  \<open>fs\<close>, of distinct fingerprints, and then the last of them for ever, either scan
  returns \<open>steps = N + 3\<close>: the number of pan iterations it performed, the three
  identical captures that declare the edge included. This needs \<open>N + 3\<close> to stay within
  the cap of 2000 iterations and, for \<open>N = 1\<close>, the frame to differ from the initial one.
\<close>

theorem scan_steps_to_edge:
  assumes "\<forall>k. panOk w k"
    and "\<forall>j. render w (clock w + j) = Some (if j < length fs then fs ! j else last fs)"
    and "fs \<noteq> []"
    and "distinct (map md5 fs)"
    and "2 \<le> length fs \<or> md5 (fs ! 0) \<noteq> initialHash"
    and "length fs + 3 \<le> 2000"
  shows "fst (findEdgeHoriz md5 initialHash direction w) =
           Inr \<lparr>steps = length fs + 3, lastHash = md5 (last fs)\<rparr> \<and>
         length (pans (snd (findEdgeHoriz md5 initialHash direction w))) =
           length (pans w) + (length fs + 3) \<and>
         fst (findEdgeVert md5 initialHash direction w) =
           Inr \<lparr>steps = length fs + 3, lastHash = md5 (last fs)\<rparr> \<and>
         length (pans (snd (findEdgeVert md5 initialHash direction w))) =
           length (pans w) + (length fs + 3)"
proof -
  have scan: "fst (scanLoop md5 step p e 0 0 initialHash w) =
           Inr \<lparr>steps = length fs + 3, lastHash = md5 (last fs)\<rparr> \<and>
         length (pans (snd (scanLoop md5 step p e 0 0 initialHash w))) =
           length (pans w) + (length fs + 3)" for step p e
    using scan_edge_after_frames [OF assms, of step p e] by auto
  show ?thesis
    by (simp add: findEdgeHoriz_def findEdgeVert_def Let_def scan)
qed

lemma twoFramePage_frames:
  "\<forall>j. render twoFramePage (clock twoFramePage + j) =
     Some (if j < length twoFrames then twoFrames ! j else last twoFrames)"
  by (simp add: twoFramePage_def twoFrames_def)

theorem scan_steps_to_edge_witness:
  "fst (findEdgeHoriz (\<lambda>b. b) [0] ''right'' twoFramePage) = Inr \<lparr>steps = 5, lastHash = [2]\<rparr> \<and>
   length (pans (snd (findEdgeHoriz (\<lambda>b. b) [0] ''right'' twoFramePage))) = 5 \<and>
   fst (findEdgeVert (\<lambda>b. b) [0] ''right'' twoFramePage) = Inr \<lparr>steps = 5, lastHash = [2]\<rparr> \<and>
   length (pans (snd (findEdgeVert (\<lambda>b. b) [0] ''right'' twoFramePage))) = 5"
proof -
  have ok: "\<forall>k. panOk twoFramePage k" by (simp add: twoFramePage_def)
  have ne: "twoFrames \<noteq> []" and di: "distinct (map (\<lambda>b. b) twoFrames)"
    and fi: "2 \<le> length twoFrames \<or> (\<lambda>b. b) (twoFrames ! 0) \<noteq> [0]"
    and ca: "length twoFrames + 3 \<le> 2000"
    by (simp_all add: twoFrames_def)
  from scan_steps_to_edge [OF ok twoFramePage_frames ne di fi ca, of "''right''"]
  show ?thesis by (simp add: twoFrames_def twoFramePage_def)
qed

text \<open>
  Two distinct frames, then the second one repeated: the scan reports five steps, not two.
\<close>

theorem scan_steps_counterexample:
  "distinct twoFrames \<and> length twoFrames = 2 \<and>
   fst (findEdgeHoriz (\<lambda>b. b) [0] ''right'' twoFramePage) = Inr \<lparr>steps = 5, lastHash = [2]\<rparr> \<and>
   fst (findEdgeHoriz (\<lambda>b. b) [0] ''right'' twoFramePage)
     \<noteq> Inr \<lparr>steps = length twoFrames, lastHash = [2]\<rparr>"
proof -
  have ok: "\<forall>k. panOk twoFramePage k" by (simp add: twoFramePage_def)
  have ne: "twoFrames \<noteq> []" and di: "distinct (map (\<lambda>b. b) twoFrames)"
    and fi: "2 \<le> length twoFrames \<or> (\<lambda>b. b) (twoFrames ! 0) \<noteq> [0]"
    and ca: "length twoFrames + 3 \<le> 2000"
    by (simp_all add: twoFrames_def)
  have "fst (scanLoop (\<lambda>b. b) step p e 0 0 [0] twoFramePage) =
      Inr \<lparr>steps = length twoFrames + 3, lastHash = last twoFrames\<rparr>" for step p e
    using scan_edge_after_frames [OF ok twoFramePage_frames ne di fi ca, of step p e] by auto
  then have "fst (findEdgeHoriz (\<lambda>b. b) [0] ''right'' twoFramePage) =
      Inr \<lparr>steps = length twoFrames + 3, lastHash = last twoFrames\<rparr>"
    by (simp add: findEdgeHoriz_def Let_def)
  then show ?thesis by (simp add: twoFrames_def)
qed

lemma captureLoop_error:
  "captureLoop retries a w = (Inl x, w') \<Longrightarrow> x = CaptureFailed"
  using captureLoop_spec [of retries a w "Inl x" w'] by simp

text \<open>
  Whatever the page does, a scan only ever appends copies of its own drag vector; a
  successful scan reports their number, and the cap error means 2000 of them were made.
\<close>

lemma scanLoop_pans:
  "scanLoop md5 step p e i c l w = (res, w') \<Longrightarrow> i \<le> 2000 \<Longrightarrow>
   \<exists>n. pans w' = pans w @ replicate n step \<and> i + n \<le> 2000 \<and> panOk w' = panOk w \<and>
       (case res of
          Inr m \<Rightarrow> steps m = i + n
        | Inl x \<Rightarrow> x = e \<and> e \<noteq> PanFailed \<and> e \<noteq> CaptureFailed \<longrightarrow> i + n = 2000)"
proof (induction md5 step p e i c l w rule: scanLoop.induct)
  case (1 md5 step p e i c l w)
  show ?case
  proof (cases "i < 2000")
    case False
    with "1.prems" have "res = Inl e" "w' = w" "i = 2000"
      by (simp_all add: scanLoop.simps)
    then show ?thesis by (intro exI [of _ 0]) simp
  next
    case True
    show ?thesis
    proof (cases "panOk w (length (pans w))")
      case False
      with True "1.prems" have "res = Inl PanFailed" "w' = w"
        by (simp_all add: scanLoop.simps dragPan_def)
      with True show ?thesis by (intro exI [of _ 0]) auto
    next
      case ok: True
      let ?w1 = "w\<lparr>pans := pans w @ [(fst step, snd step)], waited := waited w + 280\<rparr>"
      have drag: "dragPan (fst step) (snd step) w = (Inr (), ?w1)" by (rule dragPan_ok [OF ok])
      obtain cres w2 where
        cap: "captureCanvasBuffer RETRY_ATTEMPTS (waitForTimeout DELAY_MS ?w1) = (cres, w2)"
        by (cases "captureCanvasBuffer RETRY_ATTEMPTS (waitForTimeout DELAY_MS ?w1)")
      then have capL: "captureLoop RETRY_ATTEMPTS 1 (waitForTimeout DELAY_MS ?w1) = (cres, w2)"
        by (simp add: captureCanvasBuffer_def)
      from captureLoop_frame [OF capL]
      have p2: "pans w2 = pans w @ [step]" and o2: "panOk w2 = panOk w"
        by (simp_all add: waitForTimeout_def)
      show ?thesis
      proof (cases cres)
        case (Inl x)
        with capL have "x = CaptureFailed" by (auto dest: captureLoop_error)
        with Inl True drag cap "1.prems" have "res = Inl CaptureFailed" "w' = w2"
          by (simp_all add: scanLoop.simps)
        with p2 o2 True show ?thesis by (intro exI [of _ 1]) auto
      next
        case (Inr buf)
        define c' where "c' = (if md5 buf = l then c + 1 else 0)"
        define l' where "l' = (if md5 buf = l then l else md5 buf)"
        define w3 where "w3 = writeFile (p @ ''_'' @ dec i @ ''.png'') buf w2"
        have p3: "pans w3 = pans w @ [step]" and o3: "panOk w3 = panOk w"
          using p2 o2 by (simp_all add: w3_def writeFile_def)
        show ?thesis
        proof (cases "MAX_IDENTICAL_TO_EDGE \<le> c'")
          case edge: True
          with Inr True drag cap "1.prems"
          have "res = Inr \<lparr>steps = i + 1, lastHash = l'\<rparr>" "w' = w3"
            by (simp_all add: scanLoop.simps Let_def c'_def l'_def w3_def)
          with p3 o3 True show ?thesis by (intro exI [of _ 1]) auto
        next
          case noedge: False
          with Inr True drag cap "1.prems"
          have run: "scanLoop md5 step p e (i + 1) c' l' w3 = (res, w')"
            by (simp add: scanLoop.simps [of md5 step p e i] Let_def c'_def l'_def w3_def)
          have cap': "(Inr buf, w2) =
              captureCanvasBuffer RETRY_ATTEMPTS (waitForTimeout DELAY_MS ?w1)"
            using cap Inr by simp
          have bound: "i + 1 \<le> 2000" using True by simp
          have "\<exists>n. pans w' = pans w3 @ replicate n step \<and> i + 1 + n \<le> 2000 \<and>
               panOk w' = panOk w3 \<and>
             (case res of
                Inr m \<Rightarrow> steps m = i + 1 + n
              | Inl x \<Rightarrow> x = e \<and> e \<noteq> PanFailed \<and> e \<noteq> CaptureFailed \<longrightarrow> i + 1 + n = 2000)"
            unfolding w3_def
            by (rule "1.IH" [OF True drag [symmetric] refl cap' refl refl refl refl refl
                  noedge [unfolded c'_def] run [unfolded c'_def l'_def w3_def] bound])
          then obtain n where n: "pans w' = pans w3 @ replicate n step" "i + 1 + n \<le> 2000"
             "panOk w' = panOk w3"
             "(case res of
                Inr m \<Rightarrow> steps m = i + 1 + n
              | Inl x \<Rightarrow> x = e \<and> e \<noteq> PanFailed \<and> e \<noteq> CaptureFailed \<longrightarrow> i + 1 + n = 2000)"
            by blast
          show ?thesis
            apply (intro exI [of _ "Suc n"])
            using n p3 o3
            apply (auto simp: replicate_app_Cons_same split: sum.splits)
            done
        qed
      qed
    qed
  qed
qed

section \<open>Direction fallback\<close>

lemma scan_cap_pans:
  assumes "fst (scanLoop md5 step p e 0 0 h0 w) = Inl e" "e \<noteq> PanFailed" "e \<noteq> CaptureFailed"
  shows "pans (snd (scanLoop md5 step p e 0 0 h0 w)) = pans w @ replicate 2000 step"
proof -
  obtain res w' where run: "scanLoop md5 step p e 0 0 h0 w = (res, w')"
    by (cases "scanLoop md5 step p e 0 0 h0 w")
  with assms(1) have "res = Inl e" by simp
  with scanLoop_pans [OF run] assms(2,3) run show ?thesis by auto
qed

lemma scan_edge_pans:
  assumes "fst (scanLoop md5 step p e 0 0 h0 w) = Inr m"
  shows "pans (snd (scanLoop md5 step p e 0 0 h0 w)) = pans w @ replicate (steps m) step"
proof -
  obtain res w' where run: "scanLoop md5 step p e 0 0 h0 w = (res, w')"
    by (cases "scanLoop md5 step p e 0 0 h0 w")
  with assms have "res = Inr m" by simp
  with scanLoop_pans [OF run] run show ?thesis by auto
qed

lemma findEdgeHoriz_scan:
  "findEdgeHoriz md5 h0 ''right'' w = scanLoop md5 (- 960, 0) ''h_right'' HorizCap 0 0 h0 w"
  "findEdgeHoriz md5 h0 ''left'' w = scanLoop md5 (960, 0) ''h_left'' HorizCap 0 0 h0 w"
proof -
  have "Math_round (of_int VIEWPORT_width * STEP_FRACTION) = 960"
    using step_values(1) by (simp only: stepX_def)
  then show "findEdgeHoriz md5 h0 ''right'' w = scanLoop md5 (- 960, 0) ''h_right'' HorizCap 0 0 h0 w"
    and "findEdgeHoriz md5 h0 ''left'' w = scanLoop md5 (960, 0) ''h_left'' HorizCap 0 0 h0 w"
    by (simp_all add: findEdgeHoriz_def)
qed

lemma findEdgeVert_scan:
  "findEdgeVert md5 h0 ''down'' w = scanLoop md5 (0, - 600) ''v_down'' VertCap 0 0 h0 w"
  "findEdgeVert md5 h0 ''up'' w = scanLoop md5 (0, 600) ''v_up'' VertCap 0 0 h0 w"
proof -
  have "Math_round (of_int VIEWPORT_height * STEP_FRACTION) = 600"
    using step_values(2) by (simp only: stepY_def)
  then show "findEdgeVert md5 h0 ''down'' w = scanLoop md5 (0, - 600) ''v_down'' VertCap 0 0 h0 w"
    and "findEdgeVert md5 h0 ''up'' w = scanLoop md5 (0, 600) ''v_up'' VertCap 0 0 h0 w"
    by (simp_all add: findEdgeVert_def)
qed

lemma horizMeta_cases:
  "horizMeta md5 h0 w =
     (case fst (findEdgeHoriz md5 h0 ''right'' w) of
        Inr m \<Rightarrow> findEdgeHoriz md5 h0 ''right'' w
      | Inl e \<Rightarrow> findEdgeHoriz md5 h0 ''left'' (snd (findEdgeHoriz md5 h0 ''right'' w)))"
  by (simp add: horizMeta_def split: prod.splits sum.splits)

lemma vertMeta_cases:
  "vertMeta md5 h0 w =
     (case fst (findEdgeVert md5 h0 ''down'' w) of
        Inr m \<Rightarrow> findEdgeVert md5 h0 ''down'' w
      | Inl e \<Rightarrow> findEdgeVert md5 h0 ''up'' (snd (findEdgeVert md5 h0 ''down'' w)))"
  by (simp add: vertMeta_def split: prod.splits sum.splits)

lemma horiz_fallback:
  assumes "fst (findEdgeHoriz md5 h0 ''right'' w) = Inl HorizCap"
  shows "horizMeta md5 h0 w =
           findEdgeHoriz md5 h0 ''left'' (snd (findEdgeHoriz md5 h0 ''right'' w))"
    and "pans (snd (findEdgeHoriz md5 h0 ''right'' w)) = pans w @ replicate 2000 (- 960, 0)"
    and "fst (horizMeta md5 h0 w) = Inr m \<Longrightarrow>
           pans (snd (horizMeta md5 h0 w)) =
             pans w @ replicate 2000 (- 960, 0) @ replicate (steps m) (960, 0)"
proof -
  show 1: "horizMeta md5 h0 w =
           findEdgeHoriz md5 h0 ''left'' (snd (findEdgeHoriz md5 h0 ''right'' w))"
    using assms by (simp add: horizMeta_cases)
  show 2: "pans (snd (findEdgeHoriz md5 h0 ''right'' w)) = pans w @ replicate 2000 (- 960, 0)"
    using assms scan_cap_pans [of md5 "(- 960, 0)" "''h_right''" HorizCap h0 w]
    by (simp add: findEdgeHoriz_scan)
  assume "fst (horizMeta md5 h0 w) = Inr m"
  with 1 2 scan_edge_pans [of md5 "(960, 0)" "''h_left''" HorizCap h0
      "snd (findEdgeHoriz md5 h0 ''right'' w)" m]
  show "pans (snd (horizMeta md5 h0 w)) =
             pans w @ replicate 2000 (- 960, 0) @ replicate (steps m) (960, 0)"
    by (simp add: findEdgeHoriz_scan)
qed

lemma vert_fallback:
  assumes "fst (findEdgeVert md5 h0 ''down'' w) = Inl VertCap"
  shows "vertMeta md5 h0 w =
           findEdgeVert md5 h0 ''up'' (snd (findEdgeVert md5 h0 ''down'' w))"
    and "pans (snd (findEdgeVert md5 h0 ''down'' w)) = pans w @ replicate 2000 (0, - 600)"
    and "fst (vertMeta md5 h0 w) = Inr m \<Longrightarrow>
           pans (snd (vertMeta md5 h0 w)) =
             pans w @ replicate 2000 (0, - 600) @ replicate (steps m) (0, 600)"
proof -
  show 1: "vertMeta md5 h0 w =
           findEdgeVert md5 h0 ''up'' (snd (findEdgeVert md5 h0 ''down'' w))"
    using assms by (simp add: vertMeta_cases)
  show 2: "pans (snd (findEdgeVert md5 h0 ''down'' w)) = pans w @ replicate 2000 (0, - 600)"
    using assms scan_cap_pans [of md5 "(0, - 600)" "''v_down''" VertCap h0 w]
    by (simp add: findEdgeVert_scan)
  assume "fst (vertMeta md5 h0 w) = Inr m"
  with 1 2 scan_edge_pans [of md5 "(0, 600)" "''v_up''" VertCap h0
      "snd (findEdgeVert md5 h0 ''down'' w)" m]
  show "pans (snd (vertMeta md5 h0 w)) =
             pans w @ replicate 2000 (0, - 600) @ replicate (steps m) (0, 600)"
    by (simp add: findEdgeVert_scan)
qed

text \<open>
  Claim C7. On either axis, when the scan in the first direction ends with the cap error
  (after its 2000 pans), the axis is exactly the result of one scan in the opposite
  direction, started where the first one stopped: if that scan reports \<open>k\<close> steps, so
  does the axis, after \<open>k\<close> pans of the opposite sign. An axis fails only when the first
  scan failed and the opposite scan failed too.
\<close>

theorem direction_fallback:
  "(fst (findEdgeHoriz md5 h0 ''right'' w) = Inl HorizCap \<longrightarrow>
      horizMeta md5 h0 w =
        findEdgeHoriz md5 h0 ''left'' (snd (findEdgeHoriz md5 h0 ''right'' w)) \<and>
      pans (snd (findEdgeHoriz md5 h0 ''right'' w)) = pans w @ replicate 2000 (- 960, 0) \<and>
      (\<forall>m. fst (horizMeta md5 h0 w) = Inr m \<longrightarrow>
         pans (snd (horizMeta md5 h0 w)) =
           pans w @ replicate 2000 (- 960, 0) @ replicate (steps m) (960, 0))) \<and>
   (fst (findEdgeVert md5 h0 ''down'' w) = Inl VertCap \<longrightarrow>
      vertMeta md5 h0 w =
        findEdgeVert md5 h0 ''up'' (snd (findEdgeVert md5 h0 ''down'' w)) \<and>
      pans (snd (findEdgeVert md5 h0 ''down'' w)) = pans w @ replicate 2000 (0, - 600) \<and>
      (\<forall>m. fst (vertMeta md5 h0 w) = Inr m \<longrightarrow>
         pans (snd (vertMeta md5 h0 w)) =
           pans w @ replicate 2000 (0, - 600) @ replicate (steps m) (0, 600))) \<and>
   (\<forall>e. fst (horizMeta md5 h0 w) = Inl e \<longrightarrow>
      (\<exists>e1. fst (findEdgeHoriz md5 h0 ''right'' w) = Inl e1) \<and>
      fst (findEdgeHoriz md5 h0 ''left'' (snd (findEdgeHoriz md5 h0 ''right'' w))) = Inl e) \<and>
   (\<forall>e. fst (vertMeta md5 h0 w) = Inl e \<longrightarrow>
      (\<exists>e1. fst (findEdgeVert md5 h0 ''down'' w) = Inl e1) \<and>
      fst (findEdgeVert md5 h0 ''up'' (snd (findEdgeVert md5 h0 ''down'' w))) = Inl e)"
proof -
  have h: "fst (findEdgeHoriz md5 h0 ''right'' w) = Inl HorizCap \<longrightarrow>
      horizMeta md5 h0 w =
        findEdgeHoriz md5 h0 ''left'' (snd (findEdgeHoriz md5 h0 ''right'' w)) \<and>
      pans (snd (findEdgeHoriz md5 h0 ''right'' w)) = pans w @ replicate 2000 (- 960, 0) \<and>
      (\<forall>m. fst (horizMeta md5 h0 w) = Inr m \<longrightarrow>
         pans (snd (horizMeta md5 h0 w)) =
           pans w @ replicate 2000 (- 960, 0) @ replicate (steps m) (960, 0))"
    using horiz_fallback [of md5 h0 w] by blast
  have v: "fst (findEdgeVert md5 h0 ''down'' w) = Inl VertCap \<longrightarrow>
      vertMeta md5 h0 w =
        findEdgeVert md5 h0 ''up'' (snd (findEdgeVert md5 h0 ''down'' w)) \<and>
      pans (snd (findEdgeVert md5 h0 ''down'' w)) = pans w @ replicate 2000 (0, - 600) \<and>
      (\<forall>m. fst (vertMeta md5 h0 w) = Inr m \<longrightarrow>
         pans (snd (vertMeta md5 h0 w)) =
           pans w @ replicate 2000 (0, - 600) @ replicate (steps m) (0, 600))"
    using vert_fallback [of md5 h0 w] by blast
  have hf: "\<forall>e. fst (horizMeta md5 h0 w) = Inl e \<longrightarrow>
      (\<exists>e1. fst (findEdgeHoriz md5 h0 ''right'' w) = Inl e1) \<and>
      fst (findEdgeHoriz md5 h0 ''left'' (snd (findEdgeHoriz md5 h0 ''right'' w))) = Inl e"
    by (auto simp: horizMeta_cases split: sum.splits)
  have vf: "\<forall>e. fst (vertMeta md5 h0 w) = Inl e \<longrightarrow>
      (\<exists>e1. fst (findEdgeVert md5 h0 ''down'' w) = Inl e1) \<and>
      fst (findEdgeVert md5 h0 ''up'' (snd (findEdgeVert md5 h0 ''down'' w))) = Inl e"
    by (auto simp: vertMeta_cases split: sum.splits)
  from h v hf vf show ?thesis by (intro conjI)
qed

lemma fallbackPage_scans:
  "\<exists>w1 w2.
     scanLoop (\<lambda>b. b) step p e 0 0 [2] fallbackPage = (Inl e, w1) \<and>
     scanLoop (\<lambda>b. b) step' p' e' 0 0 [2] w1 = (Inr \<lparr>steps = 5, lastHash = [6]\<rparr>, w2)"
proof -
  have "\<exists>w1. scanLoop (\<lambda>b. b) step p e 0 0 [2] fallbackPage = (Inl e, w1)
           \<and> render w1 = render fallbackPage \<and> panOk w1 = panOk fallbackPage
           \<and> clock w1 = clock fallbackPage + 2000
           \<and> pans w1 = pans fallbackPage @ replicate 2000 step"
  proof (rule scan_cap_run [where g = "\<lambda>j. [j mod 2]"])
    show "\<forall>j. Suc j < 2000 \<longrightarrow> [Suc j mod 2] \<noteq> [j mod 2]"
      by (simp add: mod_Suc)
  qed (simp_all add: fallbackPage_def)
  then obtain w1 where w1: "scanLoop (\<lambda>b. b) step p e 0 0 [2] fallbackPage = (Inl e, w1)"
    "render w1 = render fallbackPage" "panOk w1 = panOk fallbackPage" "clock w1 = 2000"
    by (auto simp: fallbackPage_def)
  have "\<exists>w2. scanLoop (\<lambda>b. b) step' p' e' 0 0 [2] w1 =
             (Inr \<lparr>steps = length [[5], [6::nat]] + 3, lastHash = last [[5], [6]]\<rparr>, w2)
           \<and> render w2 = render w1 \<and> panOk w2 = panOk w1
           \<and> clock w2 = clock w1 + (length [[5], [6::nat]] + 3)
           \<and> pans w2 = pans w1 @ replicate (length [[5], [6::nat]] + 3) step'"
  proof (rule scan_edge_after_frames)
    show "\<forall>j. render w1 (clock w1 + j) =
        Some (if j < length [[5], [6::nat]] then [[5], [6]] ! j else last [[5], [6]])"
      using w1 by (auto simp: fallbackPage_def nth_Cons')
  qed (simp_all add: w1 fallbackPage_def)
  with w1 show ?thesis by auto
qed

theorem direction_fallback_witness:
  "fst (findEdgeHoriz (\<lambda>b. b) [2] ''right'' fallbackPage) = Inl HorizCap \<and>
   fst (horizMeta (\<lambda>b. b) [2] fallbackPage) = Inr \<lparr>steps = 5, lastHash = [6]\<rparr> \<and>
   pans (snd (horizMeta (\<lambda>b. b) [2] fallbackPage)) =
     replicate 2000 (- 960, 0) @ replicate 5 (960, 0) \<and>
   fst (findEdgeVert (\<lambda>b. b) [2] ''down'' fallbackPage) = Inl VertCap \<and>
   fst (vertMeta (\<lambda>b. b) [2] fallbackPage) = Inr \<lparr>steps = 5, lastHash = [6]\<rparr> \<and>
   pans (snd (vertMeta (\<lambda>b. b) [2] fallbackPage)) =
     replicate 2000 (0, - 600) @ replicate 5 (0, 600)"
proof -
  from fallbackPage_scans [of "(- 960, 0)" "''h_right''" HorizCap "(960, 0)" "''h_left''" HorizCap]
  have h1: "fst (findEdgeHoriz (\<lambda>b. b) [2] ''right'' fallbackPage) = Inl HorizCap"
    and h2: "fst (findEdgeHoriz (\<lambda>b. b) [2] ''left''
        (snd (findEdgeHoriz (\<lambda>b. b) [2] ''right'' fallbackPage))) = Inr \<lparr>steps = 5, lastHash = [6]\<rparr>"
    by (auto simp: findEdgeHoriz_scan)
  from fallbackPage_scans [of "(0, - 600)" "''v_down''" VertCap "(0, 600)" "''v_up''" VertCap]
  have v1: "fst (findEdgeVert (\<lambda>b. b) [2] ''down'' fallbackPage) = Inl VertCap"
    and v2: "fst (findEdgeVert (\<lambda>b. b) [2] ''up''
        (snd (findEdgeVert (\<lambda>b. b) [2] ''down'' fallbackPage))) = Inr \<lparr>steps = 5, lastHash = [6]\<rparr>"
    by (auto simp: findEdgeVert_scan)
  have empty: "pans fallbackPage = []" by (simp add: fallbackPage_def)
  note fb = direction_fallback [of "\<lambda>b. b" "[2]" fallbackPage]
  from fb h1 have hm: "horizMeta (\<lambda>b. b) [2] fallbackPage =
      findEdgeHoriz (\<lambda>b. b) [2] ''left'' (snd (findEdgeHoriz (\<lambda>b. b) [2] ''right'' fallbackPage))"
    by blast
  with h2 have hr: "fst (horizMeta (\<lambda>b. b) [2] fallbackPage) = Inr \<lparr>steps = 5, lastHash = [6]\<rparr>"
    by simp
  from fb h1 hr have hp: "pans (snd (horizMeta (\<lambda>b. b) [2] fallbackPage)) =
      pans fallbackPage @ replicate 2000 (- 960, 0)
        @ replicate (steps \<lparr>steps = 5, lastHash = [6::nat]\<rparr>) (960, 0)"
    by blast
  from fb v1 have vm: "vertMeta (\<lambda>b. b) [2] fallbackPage =
      findEdgeVert (\<lambda>b. b) [2] ''up'' (snd (findEdgeVert (\<lambda>b. b) [2] ''down'' fallbackPage))"
    by blast
  with v2 have vr: "fst (vertMeta (\<lambda>b. b) [2] fallbackPage) = Inr \<lparr>steps = 5, lastHash = [6]\<rparr>"
    by simp
  from fb v1 vr have vp: "pans (snd (vertMeta (\<lambda>b. b) [2] fallbackPage)) =
      pans fallbackPage @ replicate 2000 (0, - 600)
        @ replicate (steps \<lparr>steps = 5, lastHash = [6::nat]\<rparr>) (0, 600)"
    by blast
  from h1 hr hp v1 vr vp empty show ?thesis by simp
qed

section \<open>Re-homing\<close>

lemma rehome_ok:
  assumes ok: "\<forall>k. panOk w k"
  shows "fst (rehome vm hm w) = Inr () \<and>
         pans (snd (rehome vm hm w)) =
           pans w @ replicate (steps vm) (0, 600) @ replicate (steps hm) (960, 0)"
proof -
  let ?w1 = "w\<lparr>pans := pans w @ replicate (steps vm) (- 0, - revV),
                 waited := waited w + steps vm * (280 + 100)\<rparr>"
  have 1: "panTimes (steps vm) (- 0) (- revV) 100 w = (Inr (), ?w1)"
    by (rule panTimes_ok [OF ok])
  have ok1: "\<forall>k. panOk ?w1 k" using ok by simp
  have 2: "panTimes (steps hm) (- revH) 0 100 ?w1 =
      (Inr (), ?w1\<lparr>pans := pans ?w1 @ replicate (steps hm) (- revH, 0),
                 waited := waited ?w1 + steps hm * (280 + 100)\<rparr>)"
    by (rule panTimes_ok [OF ok1])
  have "rehome vm hm w =
      (Inr (), ?w1\<lparr>pans := pans ?w1 @ replicate (steps hm) (- revH, 0),
                 waited := waited ?w1 + steps hm * (280 + 100)\<rparr>)"
    by (simp only: rehome_def 1 2 prod.case sum.case)
  then show ?thesis by simp
qed

text \<open>
  When both axes resolve in their first direction, the reversal loops undo the scans'
  pans exactly.
\<close>

lemma rehome_cancels_first_direction:
  assumes ok: "\<forall>k. panOk w k"
    and h: "fst (findEdgeHoriz md5 h0 ''right'' w) = Inr hm"
    and v: "fst (findEdgeVert md5 h0 ''down'' (snd (findEdgeHoriz md5 h0 ''right'' w))) = Inr vm"
  shows "fst (locate md5 h0 w) = Inr (hm, vm) \<and>
         pans (snd (locate md5 h0 w)) =
           pans w @ replicate (steps hm) (- 960, 0) @ replicate (steps vm) (0, - 600)
                  @ replicate (steps vm) (0, 600) @ replicate (steps hm) (960, 0) \<and>
         net (replicate (steps hm) (- 960, 0) @ replicate (steps vm) (0, - 600)
                  @ replicate (steps vm) (0, 600) @ replicate (steps hm) (960, 0)) = (0, 0)"
proof -
  obtain w1 where w1: "findEdgeHoriz md5 h0 ''right'' w = (Inr hm, w1)"
    using h by (cases "findEdgeHoriz md5 h0 ''right'' w") simp
  obtain w2 where w2: "findEdgeVert md5 h0 ''down'' w1 = (Inr vm, w2)"
    using v w1 by (cases "findEdgeVert md5 h0 ''down'' w1") simp
  from scanLoop_pans [OF w1 [unfolded findEdgeHoriz_scan]]
  have p1: "pans w1 = pans w @ replicate (steps hm) (- 960, 0)" and o1: "panOk w1 = panOk w"
    by auto
  from scanLoop_pans [OF w2 [unfolded findEdgeVert_scan]]
  have p2: "pans w2 = pans w1 @ replicate (steps vm) (0, - 600)" and o2: "panOk w2 = panOk w1"
    by auto
  have ok2: "\<forall>k. panOk w2 k" using ok o1 o2 by simp
  have loc: "locate md5 h0 w = (case rehome vm hm w2 of
        (Inl e, w3) \<Rightarrow> (Inl e, w3) | (Inr u, w3) \<Rightarrow> (Inr (hm, vm), w3))"
    by (simp add: locate_def horizMeta_def vertMeta_def w1 w2)
  from rehome_ok [OF ok2, of vm hm] loc
  have "fst (locate md5 h0 w) = Inr (hm, vm)"
    and "pans (snd (locate md5 h0 w)) =
           pans w2 @ replicate (steps vm) (0, 600) @ replicate (steps hm) (960, 0)"
    by (auto split: prod.splits sum.splits)
  then show ?thesis
    by (simp add: p1 p2 net_append net_replicate)
qed

lemma driftPage_scans:
  "\<exists>w1 w2 w3.
     scanLoop (\<lambda>b. b) hstep p HorizCap 0 0 [0] driftPage = (Inr \<lparr>steps = 3, lastHash = [0]\<rparr>, w1) \<and>
     scanLoop (\<lambda>b. b) dstep p' VertCap 0 0 [0] w1 = (Inl VertCap, w2) \<and>
     scanLoop (\<lambda>b. b) ustep p'' VertCap 0 0 [0] w2 = (Inr \<lparr>steps = 3, lastHash = [0]\<rparr>, w3) \<and>
     panOk w3 = (\<lambda>k. True) \<and>
     pans w3 = replicate 3 hstep @ replicate 2000 dstep @ replicate 3 ustep"
proof -
  have "\<exists>w1. scanLoop (\<lambda>b. b) hstep p HorizCap 0 0 [0] driftPage =
             (Inr \<lparr>steps = 0 + 3, lastHash = [0]\<rparr>, w1)
           \<and> render w1 = render driftPage \<and> panOk w1 = panOk driftPage
           \<and> clock w1 = clock driftPage + 3
           \<and> pans w1 = pans driftPage @ replicate 3 hstep"
    by (rule scan_identical_run [where g = "\<lambda>j. [0]"]) (simp_all add: driftPage_def)
  then obtain w1 where w1:
      "scanLoop (\<lambda>b. b) hstep p HorizCap 0 0 [0] driftPage = (Inr \<lparr>steps = 3, lastHash = [0]\<rparr>, w1)"
      "render w1 = render driftPage" "panOk w1 = (\<lambda>k. True)" "clock w1 = 3"
      "pans w1 = replicate 3 hstep"
    by (auto simp: driftPage_def)
  have "\<exists>w2. scanLoop (\<lambda>b. b) dstep p' VertCap 0 0 [0] w1 = (Inl VertCap, w2)
           \<and> render w2 = render w1 \<and> panOk w2 = panOk w1 \<and> clock w2 = clock w1 + 2000
           \<and> pans w2 = pans w1 @ replicate 2000 dstep"
  proof (rule scan_cap_run [where g = "\<lambda>j. [1 + (3 + j) mod 2]"])
    have "(3 + Suc j) mod 2 \<noteq> (3 + j) mod (2::nat)" for j by presburger
    then show "\<forall>j. Suc j < 2000 \<longrightarrow> [1 + (3 + Suc j) mod 2] \<noteq> [1 + (3 + j) mod 2]"
      by simp
    show "\<forall>j<2000. render w1 (clock w1 + j) = Some [1 + (3 + j) mod 2]"
      using w1 by (simp add: driftPage_def)
  qed (simp_all add: w1)
  then obtain w2 where w2:
      "scanLoop (\<lambda>b. b) dstep p' VertCap 0 0 [0] w1 = (Inl VertCap, w2)"
      "render w2 = render driftPage" "panOk w2 = (\<lambda>k. True)" "clock w2 = 2003"
      "pans w2 = replicate 3 hstep @ replicate 2000 dstep"
    using w1 by auto
  have "\<exists>w3. scanLoop (\<lambda>b. b) ustep p'' VertCap 0 0 [0] w2 =
             (Inr \<lparr>steps = 0 + 3, lastHash = [0]\<rparr>, w3)
           \<and> render w3 = render w2 \<and> panOk w3 = panOk w2
           \<and> clock w3 = clock w2 + 3
           \<and> pans w3 = pans w2 @ replicate 3 ustep"
    by (rule scan_identical_run [where g = "\<lambda>j. [0]"]) (simp_all add: w2 driftPage_def)
  then obtain w3 where w3:
      "scanLoop (\<lambda>b. b) ustep p'' VertCap 0 0 [0] w2 = (Inr \<lparr>steps = 3, lastHash = [0]\<rparr>, w3)"
      "panOk w3 = (\<lambda>k. True)"
      "pans w3 = replicate 3 hstep @ replicate 2000 dstep @ replicate 3 ustep"
    using w2 by auto
  from w1(1) w2(1) w3 show ?thesis by blast
qed

text \<open>
  Claim C8. On a page where the downward scan runs into the cap and the upward scan then
  finds the edge, the reversal loops pan in the direction of the upward scan once more and
  leave the 2000 downward pans in place: the pans issued up to the start of the sweep add
  up to 1196400 pixels of vertical displacement, not to zero.
\<close>

theorem rehome_drift:
  "fst (locate (\<lambda>b. b) [0] driftPage) =
     Inr (\<lparr>steps = 3, lastHash = [0]\<rparr>, \<lparr>steps = 3, lastHash = [0]\<rparr>) \<and>
   pans (snd (locate (\<lambda>b. b) [0] driftPage)) =
     replicate 3 (- 960, 0) @ replicate 2000 (0, - 600) @ replicate 3 (0, 600)
       @ replicate 3 (0, 600) @ replicate 3 (960, 0) \<and>
   net (pans (snd (locate (\<lambda>b. b) [0] driftPage))) = (0, - 1196400)"
proof -
  from driftPage_scans [of "(- 960, 0)" "''h_right''" "(0, - 600)" "''v_down''" "(0, 600)" "''v_up''"]
  obtain w1 w2 w3 where
    h: "findEdgeHoriz (\<lambda>b. b) [0] ''right'' driftPage = (Inr \<lparr>steps = 3, lastHash = [0]\<rparr>, w1)"
    and d: "findEdgeVert (\<lambda>b. b) [0] ''down'' w1 = (Inl VertCap, w2)"
    and u: "findEdgeVert (\<lambda>b. b) [0] ''up'' w2 = (Inr \<lparr>steps = 3, lastHash = [0]\<rparr>, w3)"
    and ok3: "panOk w3 = (\<lambda>k. True)"
    and p3: "pans w3 = replicate 3 (- 960, 0) @ replicate 2000 (0, - 600) @ replicate 3 (0, 600)"
    by (auto simp: findEdgeHoriz_scan findEdgeVert_scan)
  have ok: "\<forall>k. panOk w3 k" using ok3 by simp
  have loc: "locate (\<lambda>b. b) [0] driftPage =
      (case rehome \<lparr>steps = 3, lastHash = [0]\<rparr> \<lparr>steps = 3, lastHash = [0::nat]\<rparr> w3 of
        (Inl e, w4) \<Rightarrow> (Inl e, w4)
      | (Inr u, w4) \<Rightarrow> (Inr (\<lparr>steps = 3, lastHash = [0]\<rparr>, \<lparr>steps = 3, lastHash = [0]\<rparr>), w4))"
    by (simp add: locate_def horizMeta_def vertMeta_def h d u)
  from rehome_ok [OF ok, of "\<lparr>steps = 3, lastHash = [0::nat]\<rparr>" "\<lparr>steps = 3, lastHash = [0::nat]\<rparr>"] loc
  have "fst (locate (\<lambda>b. b) [0] driftPage) =
      Inr (\<lparr>steps = 3, lastHash = [0]\<rparr>, \<lparr>steps = 3, lastHash = [0]\<rparr>)"
    and "pans (snd (locate (\<lambda>b. b) [0] driftPage)) =
           pans w3 @ replicate 3 (0, 600) @ replicate 3 (960, 0)"
    by (auto split: prod.splits sum.splits)
  then show ?thesis
    by (simp add: p3 net_append net_replicate)
qed

section \<open>Days of upkeep left\<close>

lemma Math_round_nearest: "\<bar>of_int (Math_round x) - x\<bar> \<le> 1 / 2"
  unfolding Math_round_def by linarith

text \<open>
  Claim C9. \<open>computeDays\<close> returns null, whatever the division would give, when the bank
  or the upkeep is null or undefined, or the upkeep is zero or not finite. Otherwise the
  upkeep is a finite non-zero number \<open>b\<close>, the quotient is taken once, by \<open>b\<close>, and the
  result is its ceiling when it exceeds 1 and its rounding to the nearest integer when it
  does not.
\<close>

theorem computeDays_guarded:
  "(bank = JNull \<or> bank = JUndefined \<or> upkeep = JNull \<or> upkeep = JUndefined \<or>
      \<not> isFinite (Number upkeep) \<or> Number upkeep = Fin 0
      \<longrightarrow> (\<forall>fl. computeDays fl bank upkeep = JNull)) \<and>
   (\<forall>n b. bank = JNum n \<and> upkeep = JNum (Fin b) \<and> b \<noteq> 0 \<longrightarrow>
      computeDays fl bank upkeep =
        (if gt1 (jsdiv fl n b) then JNum (Math_ceil (jsdiv fl n b))
         else JNum (Math_round_num (jsdiv fl n b)))) \<and>
   (\<forall>a b. bank = JNum (Fin a) \<and> upkeep = JNum (Fin b) \<and> b \<noteq> 0 \<and> fl (a / b) = Fin (a / b) \<longrightarrow>
      computeDays fl bank upkeep =
        (if 1 < a / b then JNum (Fin (of_int \<lceil>a / b\<rceil>))
         else JNum (Fin (of_int \<lfloor>a / b + 1 / 2\<rfloor>))))"
  by (cases bank; cases upkeep; cases "Number upkeep")
     (auto simp: computeDays_def Let_def Math_round_def)

theorem computeDays_guarded_witness:
  "computeDays Fin (JNum (Fin 10)) (JNum (Fin 4)) = JNum (Fin 3) \<and>
   computeDays Fin (JNum (Fin 1)) (JNum (Fin 4)) = JNum (Fin 0) \<and>
   computeDays Fin (JNum (Fin 10)) (JNum (Fin 0)) = JNull \<and>
   computeDays Fin JNull (JNum (Fin 4)) = JNull"
proof -
  have c: "\<lceil>(10::rat) / 4\<rceil> = 3" by (simp add: ceiling_eq_iff)
  have f: "Math_round (1 / 4) = 0" by (simp add: Math_round_def floor_eq_iff)
  from computeDays_guarded [of "JNum (Fin 10)" "JNum (Fin 4)" Fin]
  have 1: "computeDays Fin (JNum (Fin 10)) (JNum (Fin 4)) = JNum (Fin 3)"
    using c by simp
  from computeDays_guarded [of "JNum (Fin 1)" "JNum (Fin 4)" Fin]
  have 2: "computeDays Fin (JNum (Fin 1)) (JNum (Fin 4)) = JNum (Fin 0)"
    using f by simp
  from computeDays_guarded [of "JNum (Fin 10)" "JNum (Fin 0)" Fin]
  have 3: "computeDays Fin (JNum (Fin 10)) (JNum (Fin 0)) = JNull"
    by simp
  from computeDays_guarded [of JNull "JNum (Fin 4)" Fin]
  have 4: "computeDays Fin JNull (JNum (Fin 4)) = JNull"
    by simp
  from 1 2 3 4 show ?thesis by simp
qed

section \<open>Stitching\<close>

lemma stitchCols_Inr:
  "stitchCols loadImage fs row r c cv = Inr cv' \<Longrightarrow>
   cwidth cv' = cwidth cv \<and> cheight cv' = cheight cv \<and>
   drawn cv' = drawn cv @ concat (map (\<lambda>j. tileDraw loadImage fs (row ! j) r j) [c..<length row])"
proof (induction loadImage fs row r c cv rule: stitchCols.induct)
  case (1 loadImage fs savedRow r c cv)
  show ?case
  proof (cases "c < length savedRow")
    case False
    with "1.prems" show ?thesis by (simp add: stitchCols.simps)
  next
    case True
    then have upt: "[c..<length savedRow] = c # [c + 1..<length savedRow]"
      by (simp add: upt_conv_Cons)
    show ?thesis
    proof (cases "fs (savedRow ! c)")
      case None
      with True "1.prems" have "stitchCols loadImage fs savedRow r (c + 1) cv = Inr cv'"
        by (simp add: stitchCols.simps [of _ _ _ _ c])
      from "1.IH"(1) [OF True refl None this] None show ?thesis
        by (simp add: upt tileDraw_def)
    next
      case (Some bytes)
      show ?thesis
      proof (cases "loadImage bytes")
        case None
        with Some True "1.prems" show ?thesis
          by (simp add: stitchCols.simps [of _ _ _ _ c])
      next
        case (Some img)
        let ?cv1 = "drawImage img (int c * effectiveStepX) (int r * effectiveStepY) tileW tileH cv"
        from Some \<open>fs (savedRow ! c) = Some bytes\<close> True "1.prems"
        have "stitchCols loadImage fs savedRow r (c + 1) ?cv1 = Inr cv'"
          by (simp add: stitchCols.simps [of _ _ _ _ c] Let_def)
        from "1.IH"(2) [OF True refl \<open>fs (savedRow ! c) = Some bytes\<close> Some refl refl this]
          Some \<open>fs (savedRow ! c) = Some bytes\<close>
        show ?thesis
          by (simp add: upt tileDraw_def drawImage_def)
      qed
    qed
  qed
qed

lemma stitchCols_error:
  "stitchCols loadImage fs row r c cv = Inl e \<Longrightarrow>
   e = LoadFailed \<and> (\<exists>j bytes. c \<le> j \<and> j < length row \<and> fs (row ! j) = Some bytes \<and>
      loadImage bytes = None)"
proof (induction loadImage fs row r c cv rule: stitchCols.induct)
  case (1 loadImage fs savedRow r c cv)
  show ?case
  proof (cases "c < length savedRow")
    case False
    with "1.prems" show ?thesis by (simp add: stitchCols.simps)
  next
    case True
    show ?thesis
    proof (cases "fs (savedRow ! c)")
      case None
      with True "1.prems" have "stitchCols loadImage fs savedRow r (c + 1) cv = Inl e"
        by (simp add: stitchCols.simps [of _ _ _ _ c])
      from "1.IH"(1) [OF True refl None this] show ?thesis
        by (meson Suc_leD Suc_eq_plus1 le_trans le_add1)
    next
      case (Some bytes)
      show ?thesis
      proof (cases "loadImage bytes")
        case None
        with Some True "1.prems" show ?thesis
          by (auto simp: stitchCols.simps [of _ _ _ _ c])
      next
        case (Some img)
        let ?cv1 = "drawImage img (int c * effectiveStepX) (int r * effectiveStepY) tileW tileH cv"
        from Some \<open>fs (savedRow ! c) = Some bytes\<close> True "1.prems"
        have "stitchCols loadImage fs savedRow r (c + 1) ?cv1 = Inl e"
          by (simp add: stitchCols.simps [of _ _ _ _ c] Let_def)
        from "1.IH"(2) [OF True refl \<open>fs (savedRow ! c) = Some bytes\<close> Some refl refl this]
        show ?thesis
          by (meson Suc_leD Suc_eq_plus1 le_trans le_add1)
      qed
    qed
  qed
qed

lemma stitchRows_Inr:
  "stitchRows loadImage fs saved r cv = Inr cv' \<Longrightarrow>
   cwidth cv' = cwidth cv \<and> cheight cv' = cheight cv \<and>
   drawn cv' = drawn cv @
     concat (map (\<lambda>i. concat (map (\<lambda>j. tileDraw loadImage fs (saved ! i ! j) i j)
                                 [0..<length (saved ! i)])) [r..<length saved])"
proof (induction loadImage fs saved r cv rule: stitchRows.induct)
  case (1 loadImage fs saved r cv)
  show ?case
  proof (cases "r < length saved")
    case False
    with "1.prems" show ?thesis by (simp add: stitchRows.simps)
  next
    case True
    then have upt: "[r..<length saved] = r # [r + 1..<length saved]"
      by (simp add: upt_conv_Cons)
    show ?thesis
    proof (cases "stitchCols loadImage fs (saved ! r) r 0 cv")
      case (Inl e)
      with True "1.prems" show ?thesis by (simp add: stitchRows.simps [of _ _ _ r])
    next
      case (Inr cv1)
      with True "1.prems" have "stitchRows loadImage fs saved (r + 1) cv1 = Inr cv'"
        by (simp add: stitchRows.simps [of _ _ _ r])
      from "1.IH" [OF True Inr this] stitchCols_Inr [OF Inr] show ?thesis
        by (simp add: upt)
    qed
  qed
qed

lemma stitchRows_error:
  "stitchRows loadImage fs saved r cv = Inl e \<Longrightarrow>
   e = LoadFailed \<and> (\<exists>i j bytes. i < length saved \<and> j < length (saved ! i) \<and>
      fs (saved ! i ! j) = Some bytes \<and> loadImage bytes = None)"
proof (induction loadImage fs saved r cv rule: stitchRows.induct)
  case (1 loadImage fs saved r cv)
  show ?case
  proof (cases "r < length saved")
    case False
    with "1.prems" show ?thesis by (simp add: stitchRows.simps)
  next
    case True
    show ?thesis
    proof (cases "stitchCols loadImage fs (saved ! r) r 0 cv")
      case (Inl e')
      with True "1.prems" have "e' = e" by (simp add: stitchRows.simps [of _ _ _ r])
      with stitchCols_error [OF Inl] True show ?thesis by blast
    next
      case (Inr cv1)
      with True "1.prems" have "stitchRows loadImage fs saved (r + 1) cv1 = Inl e"
        by (simp add: stitchRows.simps [of _ _ _ r])
      from "1.IH" [OF True Inr this] show ?thesis .
    qed
  qed
qed

lemma stitch_Inr:
  assumes "stitch loadImage fs ncols nrows saved = Inr cv"
  shows "cwidth cv = (int ncols - 1) * effectiveStepX + tileW \<and>
         cheight cv = (int nrows - 1) * effectiveStepY + tileH \<and>
         drawn cv =
           concat (map (\<lambda>r. concat (map (\<lambda>c. tileDraw loadImage fs (saved ! r ! c) r c)
                                       [0..<length (saved ! r)])) [0..<length saved])"
  using stitchRows_Inr [OF assms [unfolded stitch_def Let_def]]
  by (simp add: createCanvas_def)

lemma stitch_error:
  assumes "stitch loadImage fs ncols nrows saved = Inl e"
  shows "e = LoadFailed \<and> (\<exists>r c bytes. r < length saved \<and> c < length (saved ! r) \<and>
      fs (saved ! r ! c) = Some bytes \<and> loadImage bytes = None)"
  using stitchRows_error [OF assms [unfolded stitch_def Let_def]] .

text \<open>
  Claim C5. The composite that \<open>stitch\<close> returns is \<open>(cols - 1) * effectiveStepX + tileW\<close>
  wide and \<open>(rows - 1) * effectiveStepY + tileH\<close> high, the effective step being the
  rounded product of the viewport dimension and the step fraction (960 and 600 for the
  1280 by 800 viewport and the fraction 0.75); three columns and two rows give 3200 by
  1400. The draws on it are, in row-major order, one tile-sized draw per slot whose file
  is there, at \<open>(column * effectiveStepX, row * effectiveStepY)\<close>.
\<close>

theorem composite_size:
  assumes "stitch loadImage fs ncols nrows saved = Inr cv"
  shows "cwidth cv = (int ncols - 1) * effectiveStepX + tileW \<and>
         cheight cv = (int nrows - 1) * effectiveStepY + tileH \<and>
         effectiveStepX = Math_round (of_int VIEWPORT_width * STEP_FRACTION) \<and>
         effectiveStepY = Math_round (of_int VIEWPORT_height * STEP_FRACTION) \<and>
         effectiveStepX = 960 \<and> effectiveStepY = 600 \<and> tileW = 1280 \<and> tileH = 800 \<and>
         (ncols = 3 \<and> nrows = 2 \<longrightarrow> cwidth cv = 3200 \<and> cheight cv = 1400) \<and>
         drawn cv =
           concat (map (\<lambda>r. concat (map (\<lambda>c. tileDraw loadImage fs (saved ! r ! c) r c)
                                       [0..<length (saved ! r)])) [0..<length saved]) \<and>
         (\<forall>r c bytes img. fs (saved ! r ! c) = Some bytes \<and> loadImage bytes = Some img \<longrightarrow>
            tileDraw loadImage fs (saved ! r ! c) r c =
              [(img, int c * effectiveStepX, int r * effectiveStepY, tileW, tileH)])"
proof -
  note s = stitch_Inr [OF assms]
  have e: "effectiveStepX = Math_round (of_int VIEWPORT_width * STEP_FRACTION)"
    "effectiveStepY = Math_round (of_int VIEWPORT_height * STEP_FRACTION)"
    by (simp_all only: effectiveStepX_def effectiveStepY_def)
  have t: "\<forall>r c bytes img. fs (saved ! r ! c) = Some bytes \<and> loadImage bytes = Some img \<longrightarrow>
            tileDraw loadImage fs (saved ! r ! c) r c =
              [(img, int c * effectiveStepX, int r * effectiveStepY, tileW, tileH)]"
    by (simp add: tileDraw_def)
  have n: "ncols = 3 \<and> nrows = 2 \<longrightarrow> cwidth cv = 3200 \<and> cheight cv = 1400"
    using s by simp
  from s e t n show ?thesis
    by (intro conjI) (simp_all only: step_values)
qed

theorem composite_size_witness:
  "stitch Some (\<lambda>name. Some [1]) 3 2 gridSaved =
     Inr \<lparr>cwidth = 3200, cheight = 1400,
          drawn = [([1], 0, 0, 1280, 800), ([1], 960, 0, 1280, 800), ([1], 1920, 0, 1280, 800),
                   ([1], 0, 600, 1280, 800), ([1], 960, 600, 1280, 800),
                   ([1], 1920, 600, 1280, 800)]\<rparr>"
proof -
  obtain cv where cv: "stitch Some (\<lambda>name. Some [1::nat]) 3 2 gridSaved = Inr cv"
    using stitch_error [of Some "\<lambda>name. Some [1::nat]" 3 2 gridSaved]
    by (cases "stitch Some (\<lambda>name. Some [1::nat]) 3 2 gridSaved") auto
  have len: "length gridSaved = 2" "length (gridSaved ! 0) = 3" "length (gridSaved ! Suc 0) = 3"
    by (simp_all add: gridSaved_def)
  have u2: "[0..<2] = [0, 1]" and u3: "[0..<3] = [0, 1, 2]"
    by (simp_all add: upt_rec)
  from composite_size [OF cv]
  have "cwidth cv = 3200" "cheight cv = 1400"
    "drawn cv = [([1], 0, 0, 1280, 800), ([1], 960, 0, 1280, 800), ([1], 1920, 0, 1280, 800),
                   ([1], 0, 600, 1280, 800), ([1], 960, 600, 1280, 800),
                   ([1], 1920, 600, 1280, 800)]"
    by (simp_all add: len u2 u3 tileDraw_def)
  then have "cv = \<lparr>cwidth = 3200, cheight = 1400,
          drawn = [([1], 0, 0, 1280, 800), ([1], 960, 0, 1280, 800), ([1], 1920, 0, 1280, 800),
                   ([1], 0, 600, 1280, 800), ([1], 960, 600, 1280, 800),
                   ([1], 1920, 600, 1280, 800)]\<rparr>"
    by (cases cv) simp
  with cv show ?thesis by simp
qed

lemma dec_small: "n < 10 \<Longrightarrow> dec n = [digit n]"
  by (simp add: dec.simps)

lemma oneTileDir_values:
  "oneTileDir (tileName 0 0) = Some [1]" "oneTileDir (tileName 0 1) = None"
  "oneTileDir (tileName 0 (Suc 0)) = None"
  by (simp_all add: oneTileDir_def tileName_def dec_small digit_def)

text \<open>
  Claim C2, as amended. \<open>stitch\<close> has no missing-tile failure: a slot whose file is absent
  is skipped. Its only failure is a file that is there and does not decode; when every
  file that is there decodes, it returns a composite of the full computed size on which
  the slots whose files are there are drawn, in row-major order, and the others are not.
\<close>

theorem stitch_skips_missing:
  "(\<forall>e. stitch loadImage fs ncols nrows saved = Inl e \<longrightarrow>
      e = LoadFailed \<and> (\<exists>r c bytes. r < length saved \<and> c < length (saved ! r) \<and>
        fs (saved ! r ! c) = Some bytes \<and> loadImage bytes = None)) \<and>
   ((\<forall>r<length saved. \<forall>c<length (saved ! r). \<forall>bytes.
        fs (saved ! r ! c) = Some bytes \<longrightarrow> loadImage bytes \<noteq> None) \<longrightarrow>
      (\<exists>cv. stitch loadImage fs ncols nrows saved = Inr cv \<and>
         cwidth cv = (int ncols - 1) * effectiveStepX + tileW \<and>
         cheight cv = (int nrows - 1) * effectiveStepY + tileH \<and>
         drawn cv =
           concat (map (\<lambda>r. concat (map (\<lambda>c. tileDraw loadImage fs (saved ! r ! c) r c)
                                       [0..<length (saved ! r)])) [0..<length saved]))) \<and>
   (\<forall>r c. fs (saved ! r ! c) = None \<longrightarrow> tileDraw loadImage fs (saved ! r ! c) r c = [])"
proof (intro conjI allI impI)
  fix e assume "stitch loadImage fs ncols nrows saved = Inl e"
  from stitch_error [OF this]
  show "e = LoadFailed" and "\<exists>r c bytes. r < length saved \<and> c < length (saved ! r) \<and>
        fs (saved ! r ! c) = Some bytes \<and> loadImage bytes = None"
    by blast+
next
  assume dec: "\<forall>r<length saved. \<forall>c<length (saved ! r). \<forall>bytes.
        fs (saved ! r ! c) = Some bytes \<longrightarrow> loadImage bytes \<noteq> None"
  show "\<exists>cv. stitch loadImage fs ncols nrows saved = Inr cv \<and>
         cwidth cv = (int ncols - 1) * effectiveStepX + tileW \<and>
         cheight cv = (int nrows - 1) * effectiveStepY + tileH \<and>
         drawn cv =
           concat (map (\<lambda>r. concat (map (\<lambda>c. tileDraw loadImage fs (saved ! r ! c) r c)
                                       [0..<length (saved ! r)])) [0..<length saved])"
  proof (cases "stitch loadImage fs ncols nrows saved")
    case (Inl e)
    from stitch_error [OF Inl] dec show ?thesis by blast
  next
    case (Inr cv)
    from stitch_Inr [OF Inr] Inr show ?thesis by blast
  qed
next
  fix r c assume "fs (saved ! r ! c) = None"
  then show "tileDraw loadImage fs (saved ! r ! c) r c = []" by (simp add: tileDraw_def)
qed

theorem stitch_skips_missing_witness:
  "oneTileDir (oneRowSaved ! 0 ! 1) = None \<and>
   (\<exists>cv. stitch Some oneTileDir 2 1 oneRowSaved = Inr cv \<and> cwidth cv = 2240 \<and>
      cheight cv = 800 \<and> drawn cv = [([1], 0, 0, 1280, 800)])"
proof -
  have dec: "\<forall>r<length oneRowSaved. \<forall>c<length (oneRowSaved ! r). \<forall>bytes.
        oneTileDir (oneRowSaved ! r ! c) = Some bytes \<longrightarrow> Some bytes \<noteq> None"
    by simp
  have u2: "[0..<2] = [0, 1]" by (simp add: upt_rec)
  from stitch_skips_missing [of Some oneTileDir 2 1 oneRowSaved] dec
  obtain cv where "stitch Some oneTileDir 2 1 oneRowSaved = Inr cv"
    "cwidth cv = (int 2 - 1) * effectiveStepX + tileW"
    "cheight cv = (int 1 - 1) * effectiveStepY + tileH"
    "drawn cv =
       concat (map (\<lambda>r. concat (map (\<lambda>c. tileDraw Some oneTileDir (oneRowSaved ! r ! c) r c)
                                   [0..<length (oneRowSaved ! r)])) [0..<length oneRowSaved])"
    by blast
  then show ?thesis
    by (intro conjI exI [of _ cv])
       (simp_all add: oneRowSaved_def u2 tileDraw_def oneTileDir_values)
qed

text \<open>
  One row of two slots, the file of slot (0, 1) absent: \<open>stitch\<close> returns a composite
  with the one tile that is there.
\<close>

theorem stitch_missing_counterexample:
  "oneTileDir (oneRowSaved ! 0 ! 1) = None \<and>
   stitch Some oneTileDir 2 1 oneRowSaved =
     Inr \<lparr>cwidth = 2240, cheight = 800, drawn = [([1], 0, 0, 1280, 800)]\<rparr>"
  by (simp add: oneRowSaved_def oneTileDir_values stitch_def Let_def stitchRows.simps
      stitchCols.simps createCanvas_def drawImage_def)

section \<open>File names\<close>

lemma digit_code: "d < 10 \<Longrightarrow> of_char (digit d) = (48 + d :: nat)"
proof -
  assume "d < 10"
  then have "d = 0 \<or> d = 1 \<or> d = 2 \<or> d = 3 \<or> d = 4 \<or> d = 5 \<or> d = 6 \<or> d = 7 \<or> d = 8 \<or> d = 9"
    by (simp add: eval_nat_numeral less_Suc_eq)
  then show ?thesis by (elim disjE) (simp_all add: digit_def)
qed

lemma digit_inj: "a < 10 \<Longrightarrow> b < 10 \<Longrightarrow> digit a = digit b \<Longrightarrow> a = b"
proof -
  assume a: "a < 10" and b: "b < 10" and eq: "digit a = digit b"
  have "(48 + a :: nat) = of_char (digit a)" using digit_code [OF a] by (rule sym)
  also have "\<dots> = of_char (digit b)" by (simp only: eq)
  also have "\<dots> = 48 + b" by (rule digit_code [OF b])
  finally show "a = b" by (simp only: add_left_cancel)
qed

lemma digit_not_underscore: "d < 10 \<Longrightarrow> digit d \<noteq> CHR ''_''"
proof
  assume d: "d < 10" and "digit d = CHR ''_''"
  then have "of_char (digit d) = (95 :: nat)" by simp
  with digit_code [OF d] show False using d by arith
qed

lemma dec_nonempty: "dec n \<noteq> []"
  by (subst dec.simps) simp

lemma dec_digits: "ch \<in> set (dec n) \<Longrightarrow> \<exists>d<10. ch = digit d"
proof (induction n rule: dec.induct)
  case (1 n)
  show ?case
  proof (cases "n < 10")
    case True
    with "1.prems" show ?thesis by (auto simp: dec.simps [of n])
  next
    case False
    with "1.prems" have "ch \<in> set (dec (n div 10)) \<or> ch = digit (n mod 10)"
      by (auto simp: dec.simps [of n])
    then show ?thesis
    proof
      assume "ch \<in> set (dec (n div 10))"
      with "1.IH" [OF False] show ?thesis by blast
    next
      assume "ch = digit (n mod 10)"
      then show ?thesis by (intro exI [of _ "n mod 10"]) simp
    qed
  qed
qed

lemma underscore_notin_dec: "CHR ''_'' \<notin> set (dec n)"
proof
  assume "CHR ''_'' \<in> set (dec n)"
  then obtain d where "d < 10" "CHR ''_'' = digit d" using dec_digits by blast
  with digit_not_underscore [of d] show False by simp
qed

lemma dec_inj: "dec m = dec n \<Longrightarrow> m = n"
proof (induction m arbitrary: n rule: dec.induct)
  case (1 m)
  show ?case
  proof (cases "m < 10")
    case m: True
    show ?thesis
    proof (cases "n < 10")
      case True
      with m "1.prems" show ?thesis
        by (simp add: dec.simps [of m] dec.simps [of n] digit_inj)
    next
      case False
      with m "1.prems" dec_nonempty [of "n div 10"] show ?thesis
        by (simp add: dec.simps [of m] dec.simps [of n])
    qed
  next
    case m: False
    show ?thesis
    proof (cases "n < 10")
      case True
      with m "1.prems" dec_nonempty [of "m div 10"] show ?thesis
        by (simp add: dec.simps [of m] dec.simps [of n])
    next
      case False
      with m "1.prems" have eq: "dec (m div 10) = dec (n div 10)"
        and d: "digit (m mod 10) = digit (n mod 10)"
        by (simp_all add: dec.simps [of m] dec.simps [of n])
      from "1.IH" [OF m eq] have "m div 10 = n div 10" .
      moreover from d have "m mod 10 = n mod 10" by (intro digit_inj) simp_all
      ultimately show ?thesis by (metis div_mult_mod_eq)
    qed
  qed
qed

lemma tileName_inj: "tileName r c = tileName r' c' \<Longrightarrow> r = r' \<and> c = c'"
proof -
  assume "tileName r c = tileName r' c'"
  then have "dec r @ CHR ''_'' # (CHR ''c'' # dec c @ ''.png'') =
             dec r' @ CHR ''_'' # (CHR ''c'' # dec c' @ ''.png'')"
    by (simp add: tileName_def)
  moreover have "CHR ''_'' \<notin> set (CHR ''c'' # dec c @ ''.png'')"
    using underscore_notin_dec [of c] by simp
  ultimately
  have "dec r = dec r' \<and> CHR ''c'' # dec c @ ''.png'' = CHR ''c'' # dec c' @ ''.png''"
    using append_Cons_eq_iff [THEN iffD1, OF underscore_notin_dec] by blast
  then show ?thesis by (auto dest: dec_inj)
qed

section \<open>The raster sweep\<close>

lemma colLoop_step:
  assumes c: "c < ncols" and ok: "\<forall>k. panOk w k" and r0: "render w (clock w) = Some buf"
  shows "\<exists>w1. colLoop ncols r c rowFiles w = colLoop ncols r (c + 1) (rowFiles @ [tileName r c]) w1
           \<and> render w1 = render w \<and> panOk w1 = panOk w \<and> clock w1 = clock w + 1
           \<and> files w1 = (files w)(tileName r c \<mapsto> buf)"
proof -
  let ?w0 = "waitForTimeout DELAY_MS w"
  have cap: "captureCanvasBuffer RETRY_ATTEMPTS ?w0 = (Inr buf, ?w0\<lparr>clock := clock w + 1\<rparr>)"
    using capture_first_ok [of ?w0 buf] r0 by (simp add: waitForTimeout_def)
  let ?w2 = "writeFile (tileName r c) buf (?w0\<lparr>clock := clock w + 1\<rparr>)"
  show ?thesis
  proof (cases "int c < int ncols - 1")
    case False
    then have "colLoop ncols r c rowFiles w = colLoop ncols r (c + 1) (rowFiles @ [tileName r c]) ?w2"
      by (subst colLoop.simps) (simp add: c cap Let_def)
    then show ?thesis
      by (intro exI [of _ ?w2]) (simp add: writeFile_def waitForTimeout_def)
  next
    case True
    have okp: "panOk ?w2 (length (pans ?w2))"
      using ok by (simp add: writeFile_def waitForTimeout_def)
    let ?w3 = "?w2\<lparr>pans := pans ?w2 @ [(- stepX, 0)], waited := waited ?w2 + 280\<rparr>"
    have drag: "dragPan (- stepX) 0 ?w2 = (Inr (), ?w3)" by (rule dragPan_ok [OF okp])
    have "colLoop ncols r c rowFiles w =
        colLoop ncols r (c + 1) (rowFiles @ [tileName r c]) (waitForTimeout DELAY_MS ?w3)"
      apply (subst colLoop.simps)
      apply (simp only: c if_True cap prod.case sum.case Let_def True drag)
      done
    then show ?thesis
      by (intro exI [of _ "waitForTimeout DELAY_MS ?w3"]) (simp add: writeFile_def waitForTimeout_def)
  qed
qed

lemma colLoop_row:
  assumes ok: "\<forall>k. panOk w k" and cap: "\<forall>k. render w k \<noteq> None"
  shows "\<exists>w'. colLoop ncols r c rowFiles w = (Inr (rowFiles @ map (tileName r) [c..<ncols]), w')
           \<and> render w' = render w \<and> panOk w' = panOk w \<and> clock w' = clock w + (ncols - c)
           \<and> (\<forall>c'. c \<le> c' \<and> c' < ncols \<longrightarrow>
                  files w' (tileName r c') = render w (clock w + (c' - c)))
           \<and> (\<forall>name. (\<forall>c'. c \<le> c' \<and> c' < ncols \<longrightarrow> name \<noteq> tileName r c') \<longrightarrow>
                  files w' name = files w name)"
  using assms
proof (induction "ncols - c" arbitrary: c rowFiles w)
  case 0
  then have "\<not> c < ncols" by simp
  then show ?case by (intro exI [of _ w]) (auto simp: colLoop.simps)
next
  case (Suc n)
  then have c: "c < ncols" by simp
  from Suc.prems obtain buf where r0: "render w (clock w) = Some buf" by fastforce
  from colLoop_step [OF c Suc.prems(1) r0, of r rowFiles]
  obtain w1 where w1:
      "colLoop ncols r c rowFiles w = colLoop ncols r (c + 1) (rowFiles @ [tileName r c]) w1"
      "render w1 = render w" "panOk w1 = panOk w" "clock w1 = clock w + 1"
      "files w1 = (files w)(tileName r c \<mapsto> buf)"
    by blast
  have n: "n = ncols - (c + 1)" using Suc.hyps(2) by simp
  have ok1: "\<forall>k. panOk w1 k" and cap1: "\<forall>k. render w1 k \<noteq> None"
    using Suc.prems w1 by simp_all
  from Suc.hyps(1) [OF n ok1 cap1, of "rowFiles @ [tileName r c]"]
  obtain w' where w':
      "colLoop ncols r (c + 1) (rowFiles @ [tileName r c]) w1 =
         (Inr ((rowFiles @ [tileName r c]) @ map (tileName r) [c + 1..<ncols]), w')"
      "render w' = render w1" "panOk w' = panOk w1" "clock w' = clock w1 + (ncols - (c + 1))"
      "\<forall>c'. c + 1 \<le> c' \<and> c' < ncols \<longrightarrow>
          files w' (tileName r c') = render w1 (clock w1 + (c' - (c + 1)))"
      "\<forall>name. (\<forall>c'. c + 1 \<le> c' \<and> c' < ncols \<longrightarrow> name \<noteq> tileName r c') \<longrightarrow>
          files w' name = files w1 name"
    by blast
  have upt: "[c..<ncols] = c # [c + 1..<ncols]" using c by (simp add: upt_conv_Cons)
  have res: "colLoop ncols r c rowFiles w = (Inr (rowFiles @ map (tileName r) [c..<ncols]), w')"
    using w1(1) w'(1) by (simp add: upt)
  have clk: "clock w' = clock w + (ncols - c)" using w'(4) w1(4) c by simp
  have files_in: "files w' (tileName r c') = render w (clock w + (c' - c))"
    if "c \<le> c' \<and> c' < ncols" for c'
  proof (cases "c' = c")
    case True
    have "\<forall>c''. c + 1 \<le> c'' \<and> c'' < ncols \<longrightarrow> tileName r c \<noteq> tileName r c''"
      by (auto dest: tileName_inj)
    with w'(6) have "files w' (tileName r c) = files w1 (tileName r c)" by blast
    with w1(5) r0 True show ?thesis by simp
  next
    case False
    with that have "c + 1 \<le> c' \<and> c' < ncols" by simp
    with w'(5) have "files w' (tileName r c') = render w1 (clock w1 + (c' - (c + 1)))" by blast
    moreover have "clock w1 + (c' - (c + 1)) = clock w + (c' - c)"
      using w1(4) False that by arith
    ultimately show ?thesis using w1(2) by simp
  qed
  have files_out: "files w' name = files w name"
    if "\<forall>c'. c \<le> c' \<and> c' < ncols \<longrightarrow> name \<noteq> tileName r c'" for name
  proof -
    from that have "\<forall>c'. c + 1 \<le> c' \<and> c' < ncols \<longrightarrow> name \<noteq> tileName r c'" by simp
    with w'(6) have "files w' name = files w1 name" by blast
    moreover from that c have "name \<noteq> tileName r c" by simp
    ultimately show ?thesis using w1(5) by simp
  qed
  show ?case
    apply (intro exI [of _ w'] conjI)
    using res w'(2,3) w1(2,3) clk files_in files_out
    apply simp_all
    done
qed

lemma rowLoop_step:
  assumes r: "r < nrows" and ok: "\<forall>k. panOk w k" and cap: "\<forall>k. render w k \<noteq> None"
  shows "\<exists>w1. rowLoop nrows ncols r saved w =
             rowLoop nrows ncols (r + 1) (saved @ [map (tileName r) [0..<ncols]]) w1
           \<and> render w1 = render w \<and> panOk w1 = panOk w \<and> clock w1 = clock w + ncols
           \<and> (\<forall>c'. c' < ncols \<longrightarrow> files w1 (tileName r c') = render w (clock w + c'))
           \<and> (\<forall>name. (\<forall>c'. c' < ncols \<longrightarrow> name \<noteq> tileName r c') \<longrightarrow>
                  files w1 name = files w name)"
proof -
  from colLoop_row [OF ok cap, of ncols r 0 "[]"]
  obtain w1 where w1:
      "colLoop ncols r 0 [] w = (Inr (map (tileName r) [0..<ncols]), w1)"
      "render w1 = render w" "panOk w1 = panOk w" "clock w1 = clock w + ncols"
      "\<forall>c'. c' < ncols \<longrightarrow> files w1 (tileName r c') = render w (clock w + c')"
      "\<forall>name. (\<forall>c'. c' < ncols \<longrightarrow> name \<noteq> tileName r c') \<longrightarrow> files w1 name = files w name"
    by auto
  have ok1: "\<forall>k. panOk w1 k" using ok w1(3) by simp
  let ?w2 = "w1\<lparr>pans := pans w1 @ replicate (nat (int ncols - 1)) (stepX, 0),
                 waited := waited w1 + nat (int ncols - 1) * (280 + 50)\<rparr>"
  have ret: "panTimes (nat (int ncols - 1)) stepX 0 50 w1 = (Inr (), ?w2)"
    by (rule panTimes_ok [OF ok1])
  show ?thesis
  proof (cases "int r < int nrows - 1")
    case False
    then have "rowLoop nrows ncols r saved w =
        rowLoop nrows ncols (r + 1) (saved @ [map (tileName r) [0..<ncols]]) ?w2"
      apply (subst rowLoop.simps)
      apply (simp only: r if_True w1(1) prod.case sum.case ret if_False)
      done
    then show ?thesis
      using w1 by (intro exI [of _ ?w2]) simp
  next
    case True
    have okp: "panOk ?w2 (length (pans ?w2))" using ok1 by simp
    let ?w3 = "?w2\<lparr>pans := pans ?w2 @ [(0, - stepY)], waited := waited ?w2 + 280\<rparr>"
    have drag: "dragPan 0 (- stepY) ?w2 = (Inr (), ?w3)" by (rule dragPan_ok [OF okp])
    have "rowLoop nrows ncols r saved w =
        rowLoop nrows ncols (r + 1) (saved @ [map (tileName r) [0..<ncols]])
          (waitForTimeout DELAY_MS ?w3)"
      apply (subst rowLoop.simps)
      apply (simp only: r if_True w1(1) prod.case sum.case ret True drag)
      done
    then show ?thesis
      using w1 by (intro exI [of _ "waitForTimeout DELAY_MS ?w3"]) (simp add: waitForTimeout_def)
  qed
qed

lemma rowLoop_grid:
  assumes ok: "\<forall>k. panOk w k" and cap: "\<forall>k. render w k \<noteq> None"
  shows "\<exists>w'. rowLoop nrows ncols r saved w =
             (Inr (saved @ map (\<lambda>r'. map (tileName r') [0..<ncols]) [r..<nrows]), w')
           \<and> render w' = render w \<and> panOk w' = panOk w
           \<and> clock w' = clock w + (nrows - r) * ncols
           \<and> (\<forall>r' c'. r \<le> r' \<and> r' < nrows \<and> c' < ncols \<longrightarrow>
                  files w' (tileName r' c') = render w (clock w + (r' - r) * ncols + c'))
           \<and> (\<forall>name. (\<forall>r' c'. r \<le> r' \<and> r' < nrows \<and> c' < ncols \<longrightarrow> name \<noteq> tileName r' c')
                  \<longrightarrow> files w' name = files w name)"
  using assms
proof (induction "nrows - r" arbitrary: r saved w)
  case 0
  then have "\<not> r < nrows" by simp
  then show ?case by (intro exI [of _ w]) (auto simp: rowLoop.simps)
next
  case (Suc n)
  then have r: "r < nrows" by simp
  from rowLoop_step [OF r Suc.prems, of ncols saved]
  obtain w1 where w1:
      "rowLoop nrows ncols r saved w =
         rowLoop nrows ncols (r + 1) (saved @ [map (tileName r) [0..<ncols]]) w1"
      "render w1 = render w" "panOk w1 = panOk w" "clock w1 = clock w + ncols"
      "\<forall>c'. c' < ncols \<longrightarrow> files w1 (tileName r c') = render w (clock w + c')"
      "\<forall>name. (\<forall>c'. c' < ncols \<longrightarrow> name \<noteq> tileName r c') \<longrightarrow> files w1 name = files w name"
    by blast
  have n: "n = nrows - (r + 1)" using Suc.hyps(2) by simp
  have ok1: "\<forall>k. panOk w1 k" and cap1: "\<forall>k. render w1 k \<noteq> None"
    using Suc.prems w1 by simp_all
  from Suc.hyps(1) [OF n ok1 cap1, of "saved @ [map (tileName r) [0..<ncols]]"]
  obtain w' where w':
      "rowLoop nrows ncols (r + 1) (saved @ [map (tileName r) [0..<ncols]]) w1 =
         (Inr ((saved @ [map (tileName r) [0..<ncols]])
                 @ map (\<lambda>r'. map (tileName r') [0..<ncols]) [r + 1..<nrows]), w')"
      "render w' = render w1" "panOk w' = panOk w1"
      "clock w' = clock w1 + (nrows - (r + 1)) * ncols"
      "\<forall>r' c'. r + 1 \<le> r' \<and> r' < nrows \<and> c' < ncols \<longrightarrow>
          files w' (tileName r' c') = render w1 (clock w1 + (r' - (r + 1)) * ncols + c')"
      "\<forall>name. (\<forall>r' c'. r + 1 \<le> r' \<and> r' < nrows \<and> c' < ncols \<longrightarrow> name \<noteq> tileName r' c')
          \<longrightarrow> files w' name = files w1 name"
    by blast
  have upt: "[r..<nrows] = r # [r + 1..<nrows]" using r by (simp add: upt_conv_Cons)
  have res: "rowLoop nrows ncols r saved w =
      (Inr (saved @ map (\<lambda>r'. map (tileName r') [0..<ncols]) [r..<nrows]), w')"
    using w1(1) w'(1) by (simp add: upt)
  have "nrows - r = Suc (nrows - (r + 1))" using r by simp
  then have clk: "clock w' = clock w + (nrows - r) * ncols"
    using w'(4) w1(4) by simp
  have files_in: "files w' (tileName r' c') = render w (clock w + (r' - r) * ncols + c')"
    if "r \<le> r' \<and> r' < nrows \<and> c' < ncols" for r' c'
  proof (cases "r' = r")
    case True
    have "\<forall>r'' c''. r + 1 \<le> r'' \<and> r'' < nrows \<and> c'' < ncols \<longrightarrow>
        tileName r c' \<noteq> tileName r'' c''"
      by (auto dest: tileName_inj)
    with w'(6) have "files w' (tileName r c') = files w1 (tileName r c')" by blast
    with w1(5) that True show ?thesis by simp
  next
    case False
    with that have lo: "r + 1 \<le> r' \<and> r' < nrows \<and> c' < ncols" by simp
    with w'(5) have "files w' (tileName r' c') =
        render w1 (clock w1 + (r' - (r + 1)) * ncols + c')" by blast
    moreover have "r' - r = Suc (r' - (r + 1))" using lo by arith
    then have "clock w1 + (r' - (r + 1)) * ncols + c' = clock w + (r' - r) * ncols + c'"
      using w1(4) by simp
    ultimately show ?thesis using w1(2) by simp
  qed
  have files_out: "files w' name = files w name"
    if out: "\<forall>r' c'. r \<le> r' \<and> r' < nrows \<and> c' < ncols \<longrightarrow> name \<noteq> tileName r' c'" for name
  proof -
    from out have "\<forall>r' c'. r + 1 \<le> r' \<and> r' < nrows \<and> c' < ncols \<longrightarrow> name \<noteq> tileName r' c'"
      by simp
    with w'(6) have "files w' name = files w1 name" by blast
    moreover from out r have "\<forall>c'. c' < ncols \<longrightarrow> name \<noteq> tileName r c'" by simp
    ultimately show ?thesis using w1(6) by simp
  qed
  show ?case
    apply (intro exI [of _ w'] conjI)
    using res w'(2,3) w1(2,3) clk files_in files_out
    apply simp_all
    done
qed

lemma concat_grid:
  "concat (map (\<lambda>r. map (f r) cs) rs) = map (\<lambda>(r, c). f r c) (List.product rs cs)"
  by (induction rs) (simp_all add: comp_def)

lemma grid_names_distinct:
  "distinct (concat (map (\<lambda>r. map (tileName r) [0..<ncols]) [0..<nrows]))"
proof -
  have "inj_on (\<lambda>(r, c). tileName r c) (set (List.product [0..<nrows] [0..<ncols]))"
    by (auto simp: inj_on_def dest: tileName_inj)
  then show ?thesis
    by (simp add: concat_grid distinct_map distinct_product)
qed

lemma grid_names_length:
  "length (concat (map (\<lambda>r. map (tileName r) [0..<ncols]) [0..<nrows])) = nrows * ncols"
  by (simp add: concat_grid)

text \<open>
  Claim C3. On a page where every capture and every pan succeeds, the sweep of an
  \<open>nrows\<close> by \<open>ncols\<close> grid makes exactly \<open>nrows * ncols\<close> captures and saves exactly
  that many tiles under pairwise different names, one for each pair (row, column) of the
  grid. The tile of slot \<open>(r, c)\<close> is the capture number \<open>r * ncols + c\<close> of the sweep,
  so the tiles are captured row by row, columns ascending; no other file is touched.
\<close>

theorem sweep_complete:
  assumes "\<forall>k. panOk w k" and "\<forall>k. render w k \<noteq> None"
  shows "fst (sweep nrows ncols w) =
           Inr (map (\<lambda>r. map (tileName r) [0..<ncols]) [0..<nrows]) \<and>
         length (concat (map (\<lambda>r. map (tileName r) [0..<ncols]) [0..<nrows])) = nrows * ncols \<and>
         distinct (concat (map (\<lambda>r. map (tileName r) [0..<ncols]) [0..<nrows])) \<and>
         clock (snd (sweep nrows ncols w)) = clock w + nrows * ncols \<and>
         (\<forall>r c. r < nrows \<and> c < ncols \<longrightarrow>
            files (snd (sweep nrows ncols w)) (tileName r c) = render w (clock w + r * ncols + c)) \<and>
         (\<forall>name. (\<forall>r c. r < nrows \<and> c < ncols \<longrightarrow> name \<noteq> tileName r c) \<longrightarrow>
            files (snd (sweep nrows ncols w)) name = files w name) \<and>
         (\<forall>r c r' c'. tileName r c = tileName r' c' \<longrightarrow> r = r' \<and> c = c')"
proof -
  from rowLoop_grid [OF assms, of nrows ncols 0 "[]"]
  obtain w' where w':
      "sweep nrows ncols w = (Inr (map (\<lambda>r. map (tileName r) [0..<ncols]) [0..<nrows]), w')"
      "clock w' = clock w + nrows * ncols"
      "\<forall>r c. r < nrows \<and> c < ncols \<longrightarrow>
          files w' (tileName r c) = render w (clock w + r * ncols + c)"
      "\<forall>name. (\<forall>r c. r < nrows \<and> c < ncols \<longrightarrow> name \<noteq> tileName r c) \<longrightarrow>
          files w' name = files w name"
    by (auto simp: sweep_def)
  have inj: "\<forall>r c r' c'. tileName r c = tileName r' c' \<longrightarrow> r = r' \<and> c = c'"
    by (auto dest: tileName_inj)
  from w' inj grid_names_distinct [of ncols nrows] grid_names_length [of ncols nrows]
  show ?thesis by simp
qed

theorem sweep_complete_witness:
  "fst (sweep 2 3 plainPage) = Inr gridSaved \<and>
   length (concat gridSaved) = 6 \<and> distinct (concat gridSaved) \<and>
   clock (snd (sweep 2 3 plainPage)) = 6 \<and>
   files (snd (sweep 2 3 plainPage)) (tileName 1 2) = Some [0]"
proof -
  have ok: "\<forall>k. panOk plainPage k" and cap: "\<forall>k. render plainPage k \<noteq> None"
    by (simp_all add: plainPage_def)
  have u2: "[0..<2] = [0, 1]" and u3: "[0..<3] = [0, 1, 2]"
    by (simp_all add: upt_rec)
  have g: "map (\<lambda>r. map (tileName r) [0..<3]) [0..<2] = gridSaved"
    by (simp add: u2 u3 gridSaved_def)
  have start: "clock plainPage = 0" "render plainPage = (\<lambda>k. Some [0])"
    by (simp_all add: plainPage_def)
  note s = sweep_complete [OF ok cap, of 2 3, unfolded g]
  from s have 1: "fst (sweep 2 3 plainPage) = Inr gridSaved"
    and 2: "length (concat gridSaved) = 2 * 3" and 3: "distinct (concat gridSaved)"
    and 4: "clock (snd (sweep 2 3 plainPage)) = clock plainPage + 2 * 3"
    by blast+
  from s have "1 < (2::nat) \<and> 2 < (3::nat) \<longrightarrow>
      files (snd (sweep 2 3 plainPage)) (tileName 1 2) =
        render plainPage (clock plainPage + 1 * 3 + 2)"
    by blast
  then have 5: "files (snd (sweep 2 3 plainPage)) (tileName 1 2) = Some [0]"
    by (simp add: start)
  from 1 2 3 4 5 start show ?thesis by simp
qed

end
